theory Spec2Isabelle
  imports Main
begin

section \<open>Common vocabulary\<close>

text \<open>
  A Go \<^verbatim>\<open>byte\<close> is a \<^typ>\<open>char\<close> (eight bits); a \<^verbatim>\<open>[]byte\<close> and a Go
  \<^verbatim>\<open>string\<close> are both a \<^typ>\<open>string\<close>, a list of bytes. A Go \<^verbatim>\<open>error\<close> is
  represented by its message.
\<close>

type_synonym error = string

text \<open>The run-time panics the modelled code can raise.\<close>

datatype panic =
    IndexOutOfRange
  | SliceBoundsOutOfRange
  | LenOutOfRange
  | CapOutOfRange
  | GrowsliceLenOutOfRange
  | SendOnClosedChannel
  | CloseOfClosedChannel
  | CloseOfNilChannel

section \<open>The session store (internal/session/session.go)\<close>

subsection \<open>Time\<close>

text \<open>
  An instant is the wall-clock reading in nanoseconds since the Unix epoch. \<^verbatim>\<open>Create\<close>
  stores \<^verbatim>\<open>time.Now().UTC()\<close>, and \<^verbatim>\<open>UTC()\<close> removes the monotonic reading, so
  \<^verbatim>\<open>time.Since\<close> takes the wall-clock path \<^verbatim>\<open>Now().Sub(t)\<close>. A \<^verbatim>\<open>time.Duration\<close> is
  an \<^verbatim>\<open>int64\<close> count of nanoseconds, and \<^verbatim>\<open>Sub\<close> saturates at its two ends instead of
  wrapping around.
\<close>

definition minDuration :: int where
  "minDuration = - (2 ^ 63)"

definition maxDuration :: int where
  "maxDuration = 2 ^ 63 - 1"

definition time_Sub :: "int \<Rightarrow> int \<Rightarrow> int" where
  "time_Sub t u =
     (if minDuration \<le> t - u \<and> t - u \<le> maxDuration then t - u
      else if t < u then minDuration
      else maxDuration)"

definition time_Since :: "int \<Rightarrow> int \<Rightarrow> int" where
  "time_Since now t = time_Sub now t"

subsection \<open>Data\<close>

record User =
  uID :: int
  Username :: string
  Role :: string
  Room :: string
  uCreatedAt :: int

record Session =
  ID :: string
  User :: User
  CreatedAt :: int

record Store =
  sessions :: "string \<rightharpoonup> Session"
  ttl :: int

text \<open>The zero values \<^verbatim>\<open>authclient.User{}\<close> and \<^verbatim>\<open>Session{}\<close>, returned on a miss.\<close>

definition User_zero :: User where
  "User_zero = \<lparr>uID = 0, Username = [], Role = [], Room = [], uCreatedAt = 0\<rparr>"

definition Session_zero :: Session where
  "Session_zero = \<lparr>ID = [], User = User_zero, CreatedAt = 0\<rparr>"

definition NewStore :: "int \<Rightarrow> Store" where
  "NewStore d = \<lparr>sessions = Map.empty, ttl = d\<rparr>"

subsection \<open>Identifiers\<close>

text \<open>
  The entropy source \<^verbatim>\<open>crypto/rand\<close> is an input of the model: either it is unavailable
  (with the error it reports), or it supplies a stream of bytes, of which
  \<^verbatim>\<open>rand.Read(b)\<close> takes the first \<^verbatim>\<open>len(b)\<close>.

  This is the contract of \<^verbatim>\<open>rand.Read\<close> that \<^verbatim>\<open>newID\<close> relies on, and it is assumed here,
  not derived: the call returns a nil error if and only if it has filled the whole of
  \<^verbatim>\<open>b\<close>. \<^verbatim>\<open>newID\<close> discards the count of bytes read and looks at the error only, so a
  read that came back short with a nil error would be encoded as if it were complete; the
  model has no such outcome. When the call reports an error, the bytes it may have
  written are dropped with the buffer, and the error is all that \<^verbatim>\<open>newID\<close> returns.
\<close>

datatype entropy = Unavailable error | Supplies "nat \<Rightarrow> char"

definition rand_Read :: "entropy \<Rightarrow> nat \<Rightarrow> error + string" where
  "rand_Read src n =
     (case src of
        Unavailable err \<Rightarrow> Inl err
      | Supplies f \<Rightarrow> Inr (map f [0..<n]))"

definition hextable :: string where
  "hextable = ''0123456789abcdef''"

fun hex_EncodeToString :: "string \<Rightarrow> string" where
  "hex_EncodeToString [] = []"
| "hex_EncodeToString (v # src) =
     hextable ! (of_char v div 16) # hextable ! (of_char v mod 16) # hex_EncodeToString src"

definition newID :: "entropy \<Rightarrow> error + string" where
  "newID src =
     (case rand_Read src 32 of
        Inl err \<Rightarrow> Inl err
      | Inr b \<Rightarrow> Inr (hex_EncodeToString b))"

subsection \<open>Operations\<close>

text \<open>
  Each operation takes the store and returns the store it leaves. \<^verbatim>\<open>Create\<close> and
  \<^verbatim>\<open>Get\<close> read the clock once; that reading is the argument \<open>now\<close>. The lock is
  not modelled: operations are taken one at a time.
\<close>

definition Create :: "Store \<Rightarrow> entropy \<Rightarrow> int \<Rightarrow> User \<Rightarrow> Store \<times> (error + Session)" where
  "Create s src now u =
     (case newID src of
        Inl err \<Rightarrow> (s, Inl err)
      | Inr i \<Rightarrow>
          (let ss = \<lparr>ID = i, User = u, CreatedAt = now\<rparr>
           in (s\<lparr>sessions := (sessions s)(i \<mapsto> ss)\<rparr>, Inr ss)))"

definition Delete :: "Store \<Rightarrow> string \<Rightarrow> Store" where
  "Delete s i = s\<lparr>sessions := (sessions s)(i := None)\<rparr>"

definition Get :: "Store \<Rightarrow> int \<Rightarrow> string \<Rightarrow> Store \<times> Session \<times> bool" where
  "Get s now i =
     (case sessions s i of
        None \<Rightarrow> (s, Session_zero, False)
      | Some ss \<Rightarrow>
          if time_Since now (CreatedAt ss) > ttl s then (Delete s i, Session_zero, False)
          else (s, ss, True))"

text \<open>The operations a caller can apply to a store, for statements about all of them.\<close>

datatype store_op = OpCreate entropy int User | OpGet int string | OpDelete string

fun apply_op :: "Store \<Rightarrow> store_op \<Rightarrow> Store" where
  "apply_op s (OpCreate src now u) = fst (Create s src now u)"
| "apply_op s (OpGet now i) = fst (Get s now i)"
| "apply_op s (OpDelete i) = Delete s i"

section \<open>The notifier's ring buffer (\<^verbatim>\<open>RingBuffer\<close> in the notifier's main.go)\<close>

subsection \<open>Go slices over an explicit memory\<close>

text \<open>
  A slice is a view of a backing array: the array it points into, the offset of its
  first element, its length and its capacity. A memory is the list of all backing arrays
  of one element type; an allocation adds a new one at the end, so an array's address is
  its position and never changes. Two slices share storage exactly when they point into
  the same array. There is one memory for the arrays of records and one for the arrays
  of bytes.

  The runtime refuses to allocate an array of more than \<open>limit\<close> elements (its
  \<^verbatim>\<open>maxAlloc\<close> divided by the size of an element): \<^verbatim>\<open>make\<close> and \<^verbatim>\<open>append\<close> panic then.
  Within that limit an allocation succeeds. The runtime's other answer to a request it
  cannot meet, the fatal error \<^verbatim>\<open>out of memory\<close>, ends the process: there is no later
  state, and no run of this model, after it.
\<close>

record slice =
  s_arr :: nat
  s_off :: nat
  s_len :: nat
  s_cap :: nat

text \<open>The nil slice has length and capacity 0: it has no element to read or to write,
  so the array it names is never looked at.\<close>

definition nil_slice :: slice where
  "nil_slice = \<lparr>s_arr = 0, s_off = 0, s_len = 0, s_cap = 0\<rparr>"

definition slice_read :: "'a list list \<Rightarrow> slice \<Rightarrow> 'a list" where
  "slice_read mem s = take (s_len s) (drop (s_off s) (mem ! s_arr s))"

text \<open>A slice of this memory: nil or empty with no capacity, or a window of an array
  that exists.\<close>

definition slice_ok :: "'a list list \<Rightarrow> slice \<Rightarrow> bool" where
  "slice_ok mem s \<longleftrightarrow>
     s_len s \<le> s_cap s
     \<and> (s_cap s = 0 \<or> (s_arr s < length mem \<and> s_off s + s_cap s \<le> length (mem ! s_arr s)))"

text \<open>
  \<^verbatim>\<open>make([]T, n, c)\<close>: a new array of \<open>c\<close> zero values and a slice of its first \<open>n\<close>.
  As in the runtime's \<^verbatim>\<open>makeslice\<close>, a request that is refused is reported as a bad
  length when the length alone is already out of range, and as a bad capacity otherwise.
\<close>

definition make_slice :: "'a \<Rightarrow> nat \<Rightarrow> 'a list list \<Rightarrow> int \<Rightarrow> int \<Rightarrow> panic + ('a list list \<times> slice)" where
  "make_slice zero limit mem n c =
     (if c < 0 \<or> int limit < c \<or> n < 0 \<or> c < n
      then (if n < 0 \<or> int limit < n then Inl LenOutOfRange else Inl CapOutOfRange)
      else Inr (mem @ [replicate (nat c) zero],
                \<lparr>s_arr = length mem, s_off = 0, s_len = nat n, s_cap = nat c\<rparr>))"

text \<open>\<^verbatim>\<open>s[i:]\<close>\<close>

definition slice_from :: "slice \<Rightarrow> nat \<Rightarrow> panic + slice" where
  "slice_from s i =
     (if s_len s < i then Inl SliceBoundsOutOfRange
      else Inr (s\<lparr>s_off := s_off s + i, s_len := s_len s - i, s_cap := s_cap s - i\<rparr>))"

text \<open>
  \<^verbatim>\<open>copy(dst, src)\<close> moves \<open>min(len(dst), len(src))\<close> elements and is correct when the two
  overlap: the source elements are read before any is written. An element is copied as
  the value it is; for a record that is its three fields, the payload being a slice
  header, not the bytes it points to.
\<close>

definition write_at :: "'a list \<Rightarrow> nat \<Rightarrow> 'a list \<Rightarrow> 'a list" where
  "write_at xs i vs = take i xs @ vs @ drop (i + length vs) xs"

definition go_copy :: "'a list list \<Rightarrow> slice \<Rightarrow> slice \<Rightarrow> 'a list list \<times> nat" where
  "go_copy mem dst src =
     (let n = min (s_len dst) (s_len src);
          vs = take n (slice_read mem src)
      in (mem[s_arr dst := write_at (mem ! s_arr dst) (s_off dst) vs], n))"

text \<open>\<^verbatim>\<open>s[i]\<close> and \<^verbatim>\<open>s[i] = v\<close>, with the index an \<^verbatim>\<open>int\<close>\<close>

definition index_read :: "'a list list \<Rightarrow> slice \<Rightarrow> int \<Rightarrow> panic + 'a" where
  "index_read mem s i =
     (if i < 0 \<or> int (s_len s) \<le> i then Inl IndexOutOfRange
      else Inr (mem ! s_arr s ! (s_off s + nat i)))"

definition index_write :: "'a list list \<Rightarrow> slice \<Rightarrow> int \<Rightarrow> 'a \<Rightarrow> panic + 'a list list" where
  "index_write mem s i v =
     (if i < 0 \<or> int (s_len s) \<le> i then Inl IndexOutOfRange
      else Inr (mem[s_arr s := (mem ! s_arr s)[s_off s + nat i := v]]))"

text \<open>
  \<^verbatim>\<open>append(s, vs...)\<close> writes in place while the capacity allows; otherwise it moves the
  elements to a new, larger array. How much larger is the runtime's choice: \<open>grow\<close>
  maps the old capacity and the length needed to the new capacity, and the length needed
  always fits. Appending nothing returns the slice it was given, so appending nothing to
  nil gives nil.
\<close>

definition go_append :: "(nat \<Rightarrow> nat \<Rightarrow> nat) \<Rightarrow> 'a \<Rightarrow> nat \<Rightarrow> 'a list list \<Rightarrow> slice \<Rightarrow> 'a list
                           \<Rightarrow> panic + ('a list list \<times> slice)" where
  "go_append grow zero limit mem s vs =
     (let n = s_len s + length vs in
      if vs = [] then Inr (mem, s)
      else if n \<le> s_cap s
      then Inr (mem[s_arr s := write_at (mem ! s_arr s) (s_off s + s_len s) vs], s\<lparr>s_len := n\<rparr>)
      else (let c = max (grow (s_cap s) n) n
            in if limit < c then Inl GrowsliceLenOutOfRange
               else Inr (mem @ [slice_read mem s @ vs @ replicate (c - n) zero],
                         \<lparr>s_arr = length mem, s_off = 0, s_len = n, s_cap = c\<rparr>)))"

subsection \<open>The buffer\<close>

text \<open>
  A record is a value, copied as a whole by \<^verbatim>\<open>copy\<close> and by assignment. The time and the
  topic are immutable values. The payload is a \<^verbatim>\<open>json.RawMessage\<close>, that is a \<^verbatim>\<open>[]byte\<close>:
  the record holds the slice header, and the bytes live in the memory of byte arrays,
  where every copy of the record finds the same ones.
\<close>

record EventRecord =
  ReceivedAt :: int
  Topic :: string
  Payload :: slice

definition EventRecord_zero :: EventRecord where
  "EventRecord_zero = \<lparr>ReceivedAt = 0, Topic = [], Payload = nil_slice\<rparr>"

text \<open>
  The record the subscription callback builds for a message:
  \<^verbatim>\<open>EventRecord{ReceivedAt: time.Now().UTC(), Topic: msg.Topic(),
  Payload: json.RawMessage(append([]byte(nil), msg.Payload()...))}\<close>.
  The payload is a copy of the broker's bytes in an array of its own.
\<close>

definition new_record :: "(nat \<Rightarrow> nat \<Rightarrow> nat) \<Rightarrow> nat \<Rightarrow> string list \<Rightarrow> int \<Rightarrow> string \<Rightarrow> string
                            \<Rightarrow> panic + (string list \<times> EventRecord)" where
  "new_record grow limit bts now topic payload =
     (case go_append grow (CHR 0x00) limit bts nil_slice payload of
        Inl p \<Rightarrow> Inl p
      | Inr (bts', s) \<Rightarrow> Inr (bts', \<lparr>ReceivedAt = now, Topic = topic, Payload = s\<rparr>))"

record RingBuffer =
  max' :: int
  arr :: slice

definition NewRingBuffer :: "nat \<Rightarrow> EventRecord list list \<Rightarrow> int
                               \<Rightarrow> panic + (EventRecord list list \<times> RingBuffer)" where
  "NewRingBuffer limit mem m =
     (let m' = (if m \<le> 0 then 50 else m)
      in case make_slice EventRecord_zero limit mem 0 m' of
           Inl p \<Rightarrow> Inl p
         | Inr (mem', s) \<Rightarrow> Inr (mem', \<lparr>max' = m', arr = s\<rparr>))"

definition Add :: "(nat \<Rightarrow> nat \<Rightarrow> nat) \<Rightarrow> nat \<Rightarrow> EventRecord list list \<times> RingBuffer \<Rightarrow> EventRecord
                     \<Rightarrow> panic + (EventRecord list list \<times> RingBuffer)" where
  "Add grow limit st e =
     (let mem = fst st; rb = snd st in
      if int (s_len (arr rb)) < max' rb
      then (case go_append grow EventRecord_zero limit mem (arr rb) [e] of
              Inl p \<Rightarrow> Inl p
            | Inr (mem', s') \<Rightarrow> Inr (mem', rb\<lparr>arr := s'\<rparr>))
      else (case slice_from (arr rb) 1 of
              Inl p \<Rightarrow> Inl p
            | Inr src \<Rightarrow>
                (let (mem', n) = go_copy mem (arr rb) src
                 in case index_write mem' (arr rb) (int (s_len (arr rb)) - 1) e of
                      Inl p \<Rightarrow> Inl p
                    | Inr mem'' \<Rightarrow> Inr (mem'', rb))))"

definition Snapshot :: "nat \<Rightarrow> EventRecord list list \<Rightarrow> RingBuffer
                          \<Rightarrow> panic + (EventRecord list list \<times> slice)" where
  "Snapshot limit mem rb =
     (case make_slice EventRecord_zero limit mem (int (s_len (arr rb))) (int (s_len (arr rb))) of
        Inl p \<Rightarrow> Inl p
      | Inr (mem', out) \<Rightarrow> Inr (fst (go_copy mem' out (arr rb)), out))"

text \<open>A sequence of \<^verbatim>\<open>Add\<close> calls, stopping at the first panic.\<close>

fun Add_all :: "(nat \<Rightarrow> nat \<Rightarrow> nat) \<Rightarrow> nat \<Rightarrow> EventRecord list list \<times> RingBuffer \<Rightarrow> EventRecord list
                  \<Rightarrow> panic + (EventRecord list list \<times> RingBuffer)" where
  "Add_all grow limit st [] = Inr st"
| "Add_all grow limit st (e # es) =
     (case Add grow limit st e of
        Inl p \<Rightarrow> Inl p
      | Inr st' \<Rightarrow> Add_all grow limit st' es)"

text \<open>
  What a holder of a snapshot can do to it besides assigning to an element or appending:
  \<^verbatim>\<open>out[i].Payload[j] = b\<close>, a write to a byte of the payload of one of its records.
\<close>

definition payload_write :: "EventRecord list list \<Rightarrow> string list \<Rightarrow> slice \<Rightarrow> int \<Rightarrow> int \<Rightarrow> char
                               \<Rightarrow> panic + string list" where
  "payload_write mem bts out i j b =
     (case index_read mem out i of
        Inl p \<Rightarrow> Inl p
      | Inr r \<Rightarrow> index_write bts (Payload r) j b)"

text \<open>The records the buffer holds, oldest first: what \<^verbatim>\<open>rb.arr\<close> shows of the memory.\<close>

definition held :: "EventRecord list list \<times> RingBuffer \<Rightarrow> EventRecord list" where
  "held st = slice_read (fst st) (arr (snd st))"

text \<open>What a reader sees of a list of records: for each the time, the topic and the bytes
  of the payload, as the \<^verbatim>\<open>/events\<close> handler encodes them.\<close>

definition shown :: "string list \<Rightarrow> EventRecord list \<Rightarrow> (int \<times> string \<times> string) list" where
  "shown bts rs = map (\<lambda>r. (ReceivedAt r, Topic r, slice_read bts (Payload r))) rs"

text \<open>
  The shape \<^verbatim>\<open>NewRingBuffer\<close> sets up and \<^verbatim>\<open>Add\<close> keeps: the slice starts at the front of
  an allocated array whose size is both the slice's capacity and \<open>max\<close>, and which the
  runtime was able to allocate.
\<close>

definition rb_ok :: "nat \<Rightarrow> EventRecord list list \<times> RingBuffer \<Rightarrow> bool" where
  "rb_ok limit st =
     (let mem = fst st; rb = snd st; s = arr rb in
      0 < max' rb \<and> s_arr s < length mem \<and> s_off s = 0 \<and> int (s_cap s) = max' rb
      \<and> length (mem ! s_arr s) = s_cap s \<and> s_len s \<le> s_cap s \<and> s_cap s \<le> limit)"

section \<open>The JSON functions of the standard library used by the hub\<close>

text \<open>
  \<^verbatim>\<open>Hub.Broadcast\<close> calls \<^verbatim>\<open>json.Valid\<close> and \<^verbatim>\<open>json.Marshal\<close> of Go's
  \<^verbatim>\<open>encoding/json\<close>. Both are library code, modelled here after the library's sources
  (\<^verbatim>\<open>scanner.go\<close>, \<^verbatim>\<open>encode.go\<close>, and \<^verbatim>\<open>unicode/utf8\<close>), function by function.
\<close>

abbreviation byte :: "char \<Rightarrow> nat" where
  "byte c \<equiv> of_char c"

subsection \<open>\<^verbatim>\<open>json.Valid\<close>: the scanner\<close>

datatype scan_code =
    scanContinue | scanBeginLiteral | scanBeginObject | scanObjectKey | scanObjectValue
  | scanEndObject | scanBeginArray | scanArrayValue | scanEndArray | scanSkipSpace
  | scanEnd | scanError

datatype parse_state = parseObjectKey | parseObjectValue | parseArrayValue

text \<open>The step functions, as the values the field \<^verbatim>\<open>scanner.step\<close> takes.\<close>

datatype step_fn =
    BeginValueOrEmpty | BeginValue | BeginStringOrEmpty | BeginString | EndValue | EndTop
  | InString | InStringEsc | InStringEscU | InStringEscU1 | InStringEscU12 | InStringEscU123
  | Neg | Num1 | Num0 | Dot | Dot0 | NumE | ESign | E0
  | LitT | LitTr | LitTru | LitF | LitFa | LitFal | LitFals | LitN | LitNu | LitNul
  | StepError

text \<open>
  The scanner: the next step, the stack of enclosing composites (innermost last, as the
  library appends to it), whether an error has been recorded, and whether the top-level
  value is complete.
\<close>

record scanner =
  step :: step_fn
  parseState :: "parse_state list"
  err :: bool
  endTop :: bool

definition maxNestingDepth :: nat where
  "maxNestingDepth = 10000"

definition reset :: scanner where
  "reset = \<lparr>step = BeginValue, parseState = [], err = False, endTop = False\<rparr>"

definition scan_error :: "scanner \<Rightarrow> scan_code \<times> scanner" where
  "scan_error s = (scanError, s\<lparr>step := StepError, err := True\<rparr>)"

definition pushParseState :: "scanner \<Rightarrow> parse_state \<Rightarrow> scan_code \<Rightarrow> scan_code \<times> scanner" where
  "pushParseState s newParseState successState =
     (let s' = s\<lparr>parseState := parseState s @ [newParseState]\<rparr>
      in if length (parseState s') \<le> maxNestingDepth then (successState, s')
         else scan_error s')"

definition popParseState :: "scanner \<Rightarrow> scanner" where
  "popParseState s =
     (let n = length (parseState s) - 1;
          s' = s\<lparr>parseState := take n (parseState s)\<rparr>
      in if n = 0 then s'\<lparr>step := EndTop, endTop := True\<rparr>
         else s'\<lparr>step := EndValue\<rparr>)"

definition isSpace :: "char \<Rightarrow> bool" where
  "isSpace c \<longleftrightarrow>
     byte c \<le> byte (CHR '' '')
     \<and> (c = CHR '' '' \<or> c = CHR 0x09 \<or> c = CHR 0x0D \<or> c = CHR 0x0A)"

definition isDigit :: "char \<Rightarrow> bool" where
  "isDigit c \<longleftrightarrow> byte (CHR ''0'') \<le> byte c \<and> byte c \<le> byte (CHR ''9'')"

definition isDigit19 :: "char \<Rightarrow> bool" where
  "isDigit19 c \<longleftrightarrow> byte (CHR ''1'') \<le> byte c \<and> byte c \<le> byte (CHR ''9'')"

definition isHex :: "char \<Rightarrow> bool" where
  "isHex c \<longleftrightarrow>
     byte (CHR ''0'') \<le> byte c \<and> byte c \<le> byte (CHR ''9'')
     \<or> byte (CHR ''a'') \<le> byte c \<and> byte c \<le> byte (CHR ''f'')
     \<or> byte (CHR ''A'') \<le> byte c \<and> byte c \<le> byte (CHR ''F'')"

definition stateEndTop :: "scanner \<Rightarrow> char \<Rightarrow> scan_code \<times> scanner" where
  "stateEndTop s c =
     (if \<not> isSpace c then (scanEnd, snd (scan_error s)) else (scanEnd, s))"

definition stateEndValue :: "scanner \<Rightarrow> char \<Rightarrow> scan_code \<times> scanner" where
  "stateEndValue s c =
     (let n = length (parseState s) in
      if n = 0 then stateEndTop (s\<lparr>step := EndTop, endTop := True\<rparr>) c
      else if isSpace c then (scanSkipSpace, s\<lparr>step := EndValue\<rparr>)
      else case parseState s ! (n - 1) of
             parseObjectKey \<Rightarrow>
               if c = CHR '':''
               then (scanObjectKey,
                     s\<lparr>parseState := (parseState s)[n - 1 := parseObjectValue], step := BeginValue\<rparr>)
               else scan_error s
           | parseObjectValue \<Rightarrow>
               if c = CHR '',''
               then (scanObjectValue,
                     s\<lparr>parseState := (parseState s)[n - 1 := parseObjectKey], step := BeginString\<rparr>)
               else if c = CHR ''}'' then (scanEndObject, popParseState s)
               else scan_error s
           | parseArrayValue \<Rightarrow>
               if c = CHR '','' then (scanArrayValue, s\<lparr>step := BeginValue\<rparr>)
               else if c = CHR '']'' then (scanEndArray, popParseState s)
               else scan_error s)"

definition stateBeginValue :: "scanner \<Rightarrow> char \<Rightarrow> scan_code \<times> scanner" where
  "stateBeginValue s c =
     (if isSpace c then (scanSkipSpace, s)
      else if c = CHR ''{'' then
        pushParseState (s\<lparr>step := BeginStringOrEmpty\<rparr>) parseObjectKey scanBeginObject
      else if c = CHR ''['' then
        pushParseState (s\<lparr>step := BeginValueOrEmpty\<rparr>) parseArrayValue scanBeginArray
      else if c = CHR 0x22 then (scanBeginLiteral, s\<lparr>step := InString\<rparr>)
      else if c = CHR ''-'' then (scanBeginLiteral, s\<lparr>step := Neg\<rparr>)
      else if c = CHR ''0'' then (scanBeginLiteral, s\<lparr>step := Num0\<rparr>)
      else if c = CHR ''t'' then (scanBeginLiteral, s\<lparr>step := LitT\<rparr>)
      else if c = CHR ''f'' then (scanBeginLiteral, s\<lparr>step := LitF\<rparr>)
      else if c = CHR ''n'' then (scanBeginLiteral, s\<lparr>step := LitN\<rparr>)
      else if isDigit19 c then (scanBeginLiteral, s\<lparr>step := Num1\<rparr>)
      else scan_error s)"

definition stateBeginValueOrEmpty :: "scanner \<Rightarrow> char \<Rightarrow> scan_code \<times> scanner" where
  "stateBeginValueOrEmpty s c =
     (if isSpace c then (scanSkipSpace, s)
      else if c = CHR '']'' then stateEndValue s c
      else stateBeginValue s c)"

definition stateBeginString :: "scanner \<Rightarrow> char \<Rightarrow> scan_code \<times> scanner" where
  "stateBeginString s c =
     (if isSpace c then (scanSkipSpace, s)
      else if c = CHR 0x22 then (scanBeginLiteral, s\<lparr>step := InString\<rparr>)
      else scan_error s)"

definition stateBeginStringOrEmpty :: "scanner \<Rightarrow> char \<Rightarrow> scan_code \<times> scanner" where
  "stateBeginStringOrEmpty s c =
     (if isSpace c then (scanSkipSpace, s)
      else if c = CHR ''}'' then
        stateEndValue
          (s\<lparr>parseState := (parseState s)[length (parseState s) - 1 := parseObjectValue]\<rparr>) c
      else stateBeginString s c)"

definition stateInString :: "scanner \<Rightarrow> char \<Rightarrow> scan_code \<times> scanner" where
  "stateInString s c =
     (if c = CHR 0x22 then (scanContinue, s\<lparr>step := EndValue\<rparr>)
      else if c = CHR 0x5C then (scanContinue, s\<lparr>step := InStringEsc\<rparr>)
      else if byte c < 0x20 then scan_error s
      else (scanContinue, s))"

definition stateInStringEsc :: "scanner \<Rightarrow> char \<Rightarrow> scan_code \<times> scanner" where
  "stateInStringEsc s c =
     (if c \<in> {CHR ''b'', CHR ''f'', CHR ''n'', CHR ''r'', CHR ''t'', CHR 0x5C, CHR ''/'', CHR 0x22}
      then (scanContinue, s\<lparr>step := InString\<rparr>)
      else if c = CHR ''u'' then (scanContinue, s\<lparr>step := InStringEscU\<rparr>)
      else scan_error s)"

definition stateInStringEscU :: "scanner \<Rightarrow> char \<Rightarrow> scan_code \<times> scanner" where
  "stateInStringEscU s c =
     (if isHex c then (scanContinue, s\<lparr>step := InStringEscU1\<rparr>) else scan_error s)"

definition stateInStringEscU1 :: "scanner \<Rightarrow> char \<Rightarrow> scan_code \<times> scanner" where
  "stateInStringEscU1 s c =
     (if isHex c then (scanContinue, s\<lparr>step := InStringEscU12\<rparr>) else scan_error s)"

definition stateInStringEscU12 :: "scanner \<Rightarrow> char \<Rightarrow> scan_code \<times> scanner" where
  "stateInStringEscU12 s c =
     (if isHex c then (scanContinue, s\<lparr>step := InStringEscU123\<rparr>) else scan_error s)"

definition stateInStringEscU123 :: "scanner \<Rightarrow> char \<Rightarrow> scan_code \<times> scanner" where
  "stateInStringEscU123 s c =
     (if isHex c then (scanContinue, s\<lparr>step := InString\<rparr>) else scan_error s)"

definition stateNeg :: "scanner \<Rightarrow> char \<Rightarrow> scan_code \<times> scanner" where
  "stateNeg s c =
     (if c = CHR ''0'' then (scanContinue, s\<lparr>step := Num0\<rparr>)
      else if isDigit19 c then (scanContinue, s\<lparr>step := Num1\<rparr>)
      else scan_error s)"

definition state0 :: "scanner \<Rightarrow> char \<Rightarrow> scan_code \<times> scanner" where
  "state0 s c =
     (if c = CHR ''.'' then (scanContinue, s\<lparr>step := Dot\<rparr>)
      else if c = CHR ''e'' \<or> c = CHR ''E'' then (scanContinue, s\<lparr>step := NumE\<rparr>)
      else stateEndValue s c)"

definition state1 :: "scanner \<Rightarrow> char \<Rightarrow> scan_code \<times> scanner" where
  "state1 s c =
     (if isDigit c then (scanContinue, s\<lparr>step := Num1\<rparr>) else state0 s c)"

definition stateDot :: "scanner \<Rightarrow> char \<Rightarrow> scan_code \<times> scanner" where
  "stateDot s c =
     (if isDigit c then (scanContinue, s\<lparr>step := Dot0\<rparr>) else scan_error s)"

definition stateDot0 :: "scanner \<Rightarrow> char \<Rightarrow> scan_code \<times> scanner" where
  "stateDot0 s c =
     (if isDigit c then (scanContinue, s)
      else if c = CHR ''e'' \<or> c = CHR ''E'' then (scanContinue, s\<lparr>step := NumE\<rparr>)
      else stateEndValue s c)"

definition stateESign :: "scanner \<Rightarrow> char \<Rightarrow> scan_code \<times> scanner" where
  "stateESign s c =
     (if isDigit c then (scanContinue, s\<lparr>step := E0\<rparr>) else scan_error s)"

definition stateE :: "scanner \<Rightarrow> char \<Rightarrow> scan_code \<times> scanner" where
  "stateE s c =
     (if c = CHR ''+'' \<or> c = CHR ''-'' then (scanContinue, s\<lparr>step := ESign\<rparr>)
      else stateESign s c)"

definition stateE0 :: "scanner \<Rightarrow> char \<Rightarrow> scan_code \<times> scanner" where
  "stateE0 s c =
     (if isDigit c then (scanContinue, s) else stateEndValue s c)"

text \<open>The literals \<^verbatim>\<open>true\<close>, \<^verbatim>\<open>false\<close> and \<^verbatim>\<open>null\<close>: one expected byte per step.\<close>

definition expect :: "char \<Rightarrow> step_fn \<Rightarrow> scanner \<Rightarrow> char \<Rightarrow> scan_code \<times> scanner" where
  "expect e nxt s c = (if c = e then (scanContinue, s\<lparr>step := nxt\<rparr>) else scan_error s)"

text \<open>Calling the function stored in \<^verbatim>\<open>s.step\<close>.\<close>

definition call_step :: "scanner \<Rightarrow> char \<Rightarrow> scan_code \<times> scanner" where
  "call_step s c =
     (case step s of
        BeginValueOrEmpty \<Rightarrow> stateBeginValueOrEmpty s c
      | BeginValue \<Rightarrow> stateBeginValue s c
      | BeginStringOrEmpty \<Rightarrow> stateBeginStringOrEmpty s c
      | BeginString \<Rightarrow> stateBeginString s c
      | EndValue \<Rightarrow> stateEndValue s c
      | EndTop \<Rightarrow> stateEndTop s c
      | InString \<Rightarrow> stateInString s c
      | InStringEsc \<Rightarrow> stateInStringEsc s c
      | InStringEscU \<Rightarrow> stateInStringEscU s c
      | InStringEscU1 \<Rightarrow> stateInStringEscU1 s c
      | InStringEscU12 \<Rightarrow> stateInStringEscU12 s c
      | InStringEscU123 \<Rightarrow> stateInStringEscU123 s c
      | Neg \<Rightarrow> stateNeg s c
      | Num1 \<Rightarrow> state1 s c
      | Num0 \<Rightarrow> state0 s c
      | Dot \<Rightarrow> stateDot s c
      | Dot0 \<Rightarrow> stateDot0 s c
      | NumE \<Rightarrow> stateE s c
      | ESign \<Rightarrow> stateESign s c
      | E0 \<Rightarrow> stateE0 s c
      | LitT \<Rightarrow> expect (CHR ''r'') LitTr s c
      | LitTr \<Rightarrow> expect (CHR ''u'') LitTru s c
      | LitTru \<Rightarrow> expect (CHR ''e'') EndValue s c
      | LitF \<Rightarrow> expect (CHR ''a'') LitFa s c
      | LitFa \<Rightarrow> expect (CHR ''l'') LitFal s c
      | LitFal \<Rightarrow> expect (CHR ''s'') LitFals s c
      | LitFals \<Rightarrow> expect (CHR ''e'') EndValue s c
      | LitN \<Rightarrow> expect (CHR ''u'') LitNu s c
      | LitNu \<Rightarrow> expect (CHR ''l'') LitNul s c
      | LitNul \<Rightarrow> expect (CHR ''l'') EndValue s c
      | StepError \<Rightarrow> (scanError, s))"

definition eof :: "scanner \<Rightarrow> scan_code" where
  "eof s =
     (if err s then scanError
      else if endTop s then scanEnd
      else if endTop (snd (call_step s (CHR '' ''))) then scanEnd
      else scanError)"

text \<open>
  \<^verbatim>\<open>checkValid\<close>: feed every byte to the scanner, give up at the first \<^verbatim>\<open>scanError\<close>,
  and ask \<^verbatim>\<open>eof\<close> at the end. The result is whether the returned error is \<^verbatim>\<open>nil\<close>.
\<close>

fun checkValid :: "scanner \<Rightarrow> string \<Rightarrow> bool" where
  "checkValid s [] = (eof s \<noteq> scanError)"
| "checkValid s (c # data) =
     (case call_step s c of
        (code, s') \<Rightarrow> if code = scanError then False else checkValid s' data)"

definition json_Valid :: "string \<Rightarrow> bool" where
  "json_Valid data = checkValid reset data"


subsection \<open>\<^verbatim>\<open>utf8.DecodeRuneInString\<close>\<close>

text \<open>
  A rune is a natural number. The table \<^verbatim>\<open>first\<close> classifies the first byte of a
  sequence: \<^verbatim>\<open>0xF0\<close> for ASCII, \<^verbatim>\<open>0xF1\<close> for a byte that starts no sequence, and otherwise
  the sequence length in the low three bits and the index of the range accepted for the
  second byte in the high four.
\<close>

definition RuneError :: nat where
  "RuneError = 0xFFFD"

definition utf8_first :: "nat \<Rightarrow> nat" where
  "utf8_first b =
     (if b < 0x80 then 0xF0
      else if b < 0xC2 then 0xF1
      else if b < 0xE0 then 0x02
      else if b = 0xE0 then 0x13
      else if b < 0xED then 0x03
      else if b = 0xED then 0x23
      else if b < 0xF0 then 0x03
      else if b = 0xF0 then 0x34
      else if b < 0xF4 then 0x04
      else if b = 0xF4 then 0x44
      else 0xF1)"

definition acceptRanges :: "(nat \<times> nat) list" where
  "acceptRanges = [(0x80, 0xBF), (0xA0, 0xBF), (0x80, 0x9F), (0x90, 0xBF), (0x80, 0x8F)]"

definition DecodeRuneInString :: "string \<Rightarrow> nat \<times> nat" where
  "DecodeRuneInString s =
     (let n = length s in
      if n < 1 then (RuneError, 0) else
      let s0 = byte (s ! 0); x = utf8_first s0 in
      if 0xF0 \<le> x then (if x = 0xF0 then s0 else RuneError, 1) else
      let sz = x mod 8; accept = acceptRanges ! (x div 16) in
      if n < sz then (RuneError, 1) else
      let s1 = byte (s ! 1) in
      if s1 < fst accept \<or> snd accept < s1 then (RuneError, 1) else
      if sz \<le> 2 then ((s0 mod 32) * 64 + s1 mod 64, 2) else
      let s2 = byte (s ! 2) in
      if s2 < 0x80 \<or> 0xBF < s2 then (RuneError, 1) else
      if sz \<le> 3 then ((s0 mod 16) * 4096 + (s1 mod 64) * 64 + s2 mod 64, 3) else
      let s3 = byte (s ! 3) in
      if s3 < 0x80 \<or> 0xBF < s3 then (RuneError, 1) else
      ((s0 mod 8) * 262144 + (s1 mod 64) * 4096 + (s2 mod 64) * 64 + s3 mod 64, 4))"

subsection \<open>\<^verbatim>\<open>json.Marshal\<close> of the hub's envelope\<close>

text \<open>
  \<^verbatim>\<open>appendString\<close> with \<^verbatim>\<open>escapeHTML\<close> set, as \<^verbatim>\<open>Marshal\<close> calls it. The library walks
  the string with an index and copies unescaped stretches in one piece; the model emits
  the same bytes piece by piece. The short escapes for backspace and form feed are those
  of Go 1.22 and later (earlier releases write \<^verbatim>\<open>\u0008\<close> and \<^verbatim>\<open>\u000c\<close>).
\<close>

definition htmlSafeSet :: "char \<Rightarrow> bool" where
  "htmlSafeSet b \<longleftrightarrow>
     0x20 \<le> byte b \<and> byte b < 0x80
     \<and> b \<notin> {CHR 0x22, CHR ''&'', CHR ''<'', CHR ''>'', CHR 0x5C}"

definition escape_byte :: "char \<Rightarrow> string" where
  "escape_byte b =
     (if b = CHR 0x5C \<or> b = CHR 0x22 then [CHR 0x5C, b]
      else if b = CHR 0x08 then [CHR 0x5C, CHR ''b'']
      else if b = CHR 0x0C then [CHR 0x5C, CHR ''f'']
      else if b = CHR 0x0A then [CHR 0x5C, CHR ''n'']
      else if b = CHR 0x0D then [CHR 0x5C, CHR ''r'']
      else if b = CHR 0x09 then [CHR 0x5C, CHR ''t'']
      else [CHR 0x5C, CHR ''u'', CHR ''0'', CHR ''0'',
            hextable ! (byte b div 16), hextable ! (byte b mod 16)])"

function appendString_from :: "string \<Rightarrow> string" where
  "appendString_from [] = []"
| "appendString_from (b # src) =
     (if byte b < 0x80 then
        (if htmlSafeSet b then [b] else escape_byte b) @ appendString_from src
      else
        (let (c, size) = DecodeRuneInString (take 4 (b # src)) in
         if c = RuneError \<and> size = 1 then
           [CHR 0x5C, CHR ''u'', CHR ''f'', CHR ''f'', CHR ''f'', CHR ''d'']
             @ appendString_from (drop size (b # src))
         else if c = 0x2028 \<or> c = 0x2029 then
           [CHR 0x5C, CHR ''u'', CHR ''2'', CHR ''0'', CHR ''2'', hextable ! (c mod 16)]
             @ appendString_from (drop size (b # src))
         else take size (b # src) @ appendString_from (drop size (b # src))))"
  by pat_completeness auto
termination
proof (relation "measure length")
  show "wf (measure length)"
    by simp
next
  fix b :: char and src :: string
  show "(src, b # src) \<in> measure length"
    by simp
next
  fix b :: char and src :: string and x :: "nat \<times> nat" and c size :: nat
  assume "x = DecodeRuneInString (take 4 (b # src))" and "(c, size) = x"
  then have "snd (DecodeRuneInString (take 4 (b # src))) = size"
    by (metis snd_conv)
  moreover have "1 \<le> snd (DecodeRuneInString (take 4 (b # src)))"
    by (simp add: DecodeRuneInString_def Let_def)
  ultimately have "1 \<le> size"
    by simp
  then show "(drop size (b # src), b # src) \<in> measure length"
    by simp
next
  fix b :: char and src :: string and x :: "nat \<times> nat" and c size :: nat
  assume "x = DecodeRuneInString (take 4 (b # src))" and "(c, size) = x"
  then have "snd (DecodeRuneInString (take 4 (b # src))) = size"
    by (metis snd_conv)
  moreover have "1 \<le> snd (DecodeRuneInString (take 4 (b # src)))"
    by (simp add: DecodeRuneInString_def Let_def)
  ultimately have "1 \<le> size"
    by simp
  then show "(drop size (b # src), b # src) \<in> measure length"
    by simp
next
  fix b :: char and src :: string and x :: "nat \<times> nat" and c size :: nat
  assume "x = DecodeRuneInString (take 4 (b # src))" and "(c, size) = x"
  then have "snd (DecodeRuneInString (take 4 (b # src))) = size"
    by (metis snd_conv)
  moreover have "1 \<le> snd (DecodeRuneInString (take 4 (b # src)))"
    by (simp add: DecodeRuneInString_def Let_def)
  ultimately have "1 \<le> size"
    by simp
  then show "(drop size (b # src), b # src) \<in> measure length"
    by simp
qed

definition appendString :: "string \<Rightarrow> string \<Rightarrow> string" where
  "appendString dst src = dst @ [CHR 0x22] @ appendString_from src @ [CHR 0x22]"

text \<open>
  \<^verbatim>\<open>json.Marshal(map[string]any{"event": "raw", "payload": string(b)})\<close>: a map is
  written with its keys in sorted order, here \<^verbatim>\<open>event\<close> before \<^verbatim>\<open>payload\<close>, each key
  and each string value through \<^verbatim>\<open>appendString\<close>. Encoding strings cannot fail, so the
  error that \<^verbatim>\<open>Broadcast\<close> drops is always \<^verbatim>\<open>nil\<close>.
\<close>

definition json_Marshal_raw :: "string \<Rightarrow> string" where
  "json_Marshal_raw payload =
     appendString
       (appendString
          (appendString (appendString ''{'' ''event'' @ '':'') ''raw'' @ '','')
          ''payload'' @ '':'')
       payload
     @ ''}''"

section \<open>The broadcast hub and its stream connections (package \<^verbatim>\<open>sse\<close>)\<close>

subsection \<open>Frames\<close>

text \<open>
  \<^verbatim>\<open>bytes.ReplaceAll(s, old, new)\<close> for a non-empty \<open>old\<close>: the occurrences of \<open>old\<close> are
  found from left to right, without overlap, and each is replaced by \<open>new\<close>. (For an empty
  \<open>old\<close> the library inserts \<open>new\<close> around every UTF-8 sequence; the program never asks
  for that, and the model then returns \<open>s\<close>.)
\<close>

fun bytes_ReplaceAll :: "string \<Rightarrow> string \<Rightarrow> string \<Rightarrow> string" where
  "bytes_ReplaceAll [] old new = []"
| "bytes_ReplaceAll (c # s) old new =
     (if old \<noteq> [] \<and> take (length old) (c # s) = old
      then new @ bytes_ReplaceAll (drop (length old) (c # s)) old new
      else c # bytes_ReplaceAll s old new)"

text \<open>
  A writer is the sequence of bytes written to it so far. Both functions format
  \<^verbatim>\<open>"data: %s\n\n"\<close> with the payload after \<^verbatim>\<open>ReplaceAll(data, "\n", "")\<close>, and ignore the
  result of the write.
\<close>

definition writeSSE :: "string \<Rightarrow> string \<Rightarrow> string" where
  "writeSSE w data = w @ ''data: '' @ bytes_ReplaceAll data [CHR 0x0A] [] @ [CHR 0x0A, CHR 0x0A]"

definition writeSSEBuffered :: "string \<Rightarrow> string \<Rightarrow> string" where
  "writeSSEBuffered w data =
     w @ ''data: '' @ bytes_ReplaceAll data [CHR 0x0A] [] @ [CHR 0x0A, CHR 0x0A]"

subsection \<open>Channels\<close>

text \<open>
  A buffered channel: the messages waiting in it, its capacity, and whether it has been
  closed. An operation that cannot proceed now is \<open>Blocked\<close>: the goroutine would wait,
  and nothing has changed. A \<^verbatim>\<open>select\<close> with a \<^verbatim>\<open>default\<close> case takes the default
  in place of waiting.
\<close>

record chan =
  buf :: "string list"
  cap :: nat
  closed :: bool

datatype 'a outcome = Done 'a | Blocked | Panic panic

definition make_chan :: "nat \<Rightarrow> chan" where
  "make_chan n = \<lparr>buf = [], cap = n, closed = False\<rparr>"

definition chan_send :: "chan \<Rightarrow> string \<Rightarrow> chan outcome" where
  "chan_send c v =
     (if closed c then Panic SendOnClosedChannel
      else if length (buf c) < cap c then Done (c\<lparr>buf := buf c @ [v]\<rparr>)
      else Blocked)"

definition chan_recv :: "chan \<Rightarrow> (chan \<times> string \<times> bool) outcome" where
  "chan_recv c =
     (case buf c of
        v # rest \<Rightarrow> Done (c\<lparr>buf := rest\<rparr>, v, True)
      | [] \<Rightarrow> if closed c then Done (c, [], False) else Blocked)"

definition chan_close :: "chan \<Rightarrow> chan outcome" where
  "chan_close c =
     (if closed c then Panic CloseOfClosedChannel else Done (c\<lparr>closed := True\<rparr>))"

subsection \<open>The hub\<close>

text \<open>
  The state is the hub's and that of the client channels it refers to. All client
  channels ever made are kept in \<open>mailboxes\<close>; a channel value (a client handle) is
  its position there, so \<^verbatim>\<open>make\<close> always yields a handle never seen before. A handle
  outside \<open>mailboxes\<close> refers to no channel and behaves as the \<^verbatim>\<open>nil\<close> channel does.
  \<open>clients\<close> lists the keys of the map \<^verbatim>\<open>h.clients\<close>, each once. The channels
  \<^verbatim>\<open>h.register\<close> and \<^verbatim>\<open>h.unregister\<close> are unbuffered: a send on them completes when
  \<^verbatim>\<open>Run\<close> takes the value, which is the step modelled.
\<close>

record Hub =
  mailboxes :: "chan list"
  broadcast :: chan
  clients :: "nat list"

definition NewHub :: Hub where
  "NewHub = \<lparr>mailboxes = [], broadcast = make_chan 100, clients = []\<rparr>"

text \<open>The three cases of the \<^verbatim>\<open>select\<close> in \<^verbatim>\<open>Run\<close>, one loop iteration each.\<close>

definition Run_register :: "Hub \<Rightarrow> nat \<Rightarrow> Hub" where
  "Run_register h ch = h\<lparr>clients := List.insert ch (clients h)\<rparr>"

definition close_at :: "chan list \<Rightarrow> nat \<Rightarrow> chan list outcome" where
  "close_at ms ch =
     (if ch < length ms then
        (case chan_close (ms ! ch) of
           Done c \<Rightarrow> Done (ms[ch := c])
         | Blocked \<Rightarrow> Blocked
         | Panic p \<Rightarrow> Panic p)
      else Panic CloseOfNilChannel)"

definition Run_unregister :: "Hub \<Rightarrow> nat \<Rightarrow> Hub outcome" where
  "Run_unregister h ch =
     (if ch \<in> set (clients h) then
        (case close_at (mailboxes h) ch of
           Done ms \<Rightarrow> Done (h\<lparr>clients := removeAll ch (clients h), mailboxes := ms\<rparr>)
         | Blocked \<Rightarrow> Blocked
         | Panic p \<Rightarrow> Panic p)
      else Done h)"

text \<open>\<^verbatim>\<open>select { case ch <- msg: default: }\<close>\<close>

definition select_send_default :: "chan list \<Rightarrow> nat \<Rightarrow> string \<Rightarrow> chan list outcome" where
  "select_send_default ms ch msg =
     (if ch < length ms then
        (case chan_send (ms ! ch) msg of
           Done c \<Rightarrow> Done (ms[ch := c])
         | Blocked \<Rightarrow> Done ms
         | Panic p \<Rightarrow> Panic p)
      else Done ms)"

text \<open>What that statement does to a channel that is open: the message is added if there
  is room, and the channel is left alone if there is none.\<close>

definition deliver :: "string \<Rightarrow> chan \<Rightarrow> chan" where
  "deliver msg c = (if length (buf c) < cap c then c\<lparr>buf := buf c @ [msg]\<rparr> else c)"

text \<open>
  \<^verbatim>\<open>for ch := range h.clients\<close>, over the keys in the order the runtime happens to
  produce them.
\<close>

fun fan_out :: "string \<Rightarrow> nat list \<Rightarrow> chan list \<Rightarrow> chan list outcome" where
  "fan_out msg [] ms = Done ms"
| "fan_out msg (ch # rest) ms =
     (case select_send_default ms ch msg of
        Done ms' \<Rightarrow> fan_out msg rest ms'
      | Blocked \<Rightarrow> Blocked
      | Panic p \<Rightarrow> Panic p)"

definition Run_broadcast :: "Hub \<Rightarrow> Hub outcome" where
  "Run_broadcast h =
     (case chan_recv (broadcast h) of
        Done (q, msg, ok) \<Rightarrow>
          (case fan_out msg (clients h) (mailboxes h) of
             Done ms \<Rightarrow> Done (h\<lparr>broadcast := q, mailboxes := ms\<rparr>)
           | Blocked \<Rightarrow> Blocked
           | Panic p \<Rightarrow> Panic p)
      | Blocked \<Rightarrow> Blocked
      | Panic p \<Rightarrow> Panic p)"

text \<open>\<^verbatim>\<open>Hub.Broadcast\<close>, called by the broker bridge.\<close>

definition Broadcast :: "Hub \<Rightarrow> string \<Rightarrow> Hub outcome" where
  "Broadcast h b =
     (let b' = (if \<not> json_Valid b then json_Marshal_raw b else b)
      in case chan_send (broadcast h) b' of
           Done q \<Rightarrow> Done (h\<lparr>broadcast := q\<rparr>)
         | Blocked \<Rightarrow> Blocked
         | Panic p \<Rightarrow> Panic p)"

subsection \<open>The stream connection (\<^verbatim>\<open>SSEHandler\<close>)\<close>

text \<open>
  The handler makes its mailbox and registers it; the deferred function unregisters it.
  In between it writes the opening frame and then loops; the mailbox case of the loop
  takes one message and writes its frame, or returns when the mailbox has been closed.
\<close>

definition SSE_register :: "Hub \<Rightarrow> Hub \<times> nat" where
  "SSE_register h =
     (let client = length (mailboxes h)
      in (Run_register (h\<lparr>mailboxes := mailboxes h @ [make_chan 25]\<rparr>) client, client))"

definition SSE_unregister :: "Hub \<Rightarrow> nat \<Rightarrow> Hub outcome" where
  "SSE_unregister h client = Run_unregister h client"

definition SSE_open :: "string \<Rightarrow> string" where
  "SSE_open w = writeSSE w ''{\"event\":\"connected\"}''"

definition SSE_mailbox :: "Hub \<Rightarrow> nat \<Rightarrow> string \<Rightarrow> (Hub \<times> string \<times> bool) outcome" where
  "SSE_mailbox h client w =
     (if client < length (mailboxes h) then
        (case chan_recv (mailboxes h ! client) of
           Done (c, msg, ok) \<Rightarrow>
             if \<not> ok then Done (h, w, False)
             else Done (h\<lparr>mailboxes := (mailboxes h)[client := c]\<rparr>, writeSSEBuffered w msg, True)
         | Blocked \<Rightarrow> Blocked
         | Panic p \<Rightarrow> Panic p)
      else Blocked)"

subsection \<open>Runs\<close>

text \<open>
  What can happen to a hub, one event at a time: a connection starts, a connection ends
  (its handle is unregistered), some caller invokes \<^verbatim>\<open>Broadcast\<close>, \<^verbatim>\<open>Run\<close> takes a queued
  message and fans it out, or a connection takes a message from its mailbox. An event
  that is blocked has not happened, and leaves the state as it is.
\<close>

datatype event = Register | Unregister nat | Publish string | FanOut | Receive nat

fun occur :: "Hub \<Rightarrow> event \<Rightarrow> Hub outcome" where
  "occur h Register = Done (fst (SSE_register h))"
| "occur h (Unregister ch) = SSE_unregister h ch"
| "occur h (Publish b) = Broadcast h b"
| "occur h FanOut = Run_broadcast h"
| "occur h (Receive ch) =
     (case SSE_mailbox h ch [] of
        Done (h', w, continue) \<Rightarrow> Done h'
      | Blocked \<Rightarrow> Blocked
      | Panic p \<Rightarrow> Panic p)"

fun run :: "Hub \<Rightarrow> event list \<Rightarrow> Hub outcome" where
  "run h [] = Done h"
| "run h (e # es) =
     (case occur h e of
        Done h' \<Rightarrow> run h' es
      | Blocked \<Rightarrow> run h es
      | Panic p \<Rightarrow> Panic p)"

text \<open>The registrations in a run, the handles they return, and the unregistrations that
  found their handle registered.\<close>

fun registrations :: "event list \<Rightarrow> nat" where
  "registrations [] = 0"
| "registrations (Register # es) = Suc (registrations es)"
| "registrations (e # es) = registrations es"

fun after :: "Hub \<Rightarrow> event \<Rightarrow> Hub" where
  "after h e = (case occur h e of Done h' \<Rightarrow> h' | Blocked \<Rightarrow> h | Panic p \<Rightarrow> h)"

fun handles :: "Hub \<Rightarrow> event list \<Rightarrow> nat list" where
  "handles h [] = []"
| "handles h (Register # es) = snd (SSE_register h) # handles (after h Register) es"
| "handles h (e # es) = handles (after h e) es"

fun effective_unregistrations :: "Hub \<Rightarrow> event list \<Rightarrow> nat" where
  "effective_unregistrations h [] = 0"
| "effective_unregistrations h (Unregister ch # es) =
     (if ch \<in> set (clients h) then 1 else 0) + effective_unregistrations (after h (Unregister ch)) es"
| "effective_unregistrations h (e # es) = effective_unregistrations (after h e) es"

text \<open>
  What holds of every hub the program can reach: the registry lists each handle once,
  every registered handle is a channel that exists and is open, every client channel has
  capacity 25, and the broadcast queue is open with capacity 100.
\<close>

definition hub_inv :: "Hub \<Rightarrow> bool" where
  "hub_inv h \<longleftrightarrow>
     distinct (clients h)
     \<and> list_all (\<lambda>ch. ch < length (mailboxes h) \<and> \<not> closed (mailboxes h ! ch)) (clients h)
     \<and> list_all (\<lambda>c. cap c = 25) (mailboxes h)
     \<and> cap (broadcast h) = 100
     \<and> \<not> closed (broadcast h)"


section \<open>Concrete values used in the examples\<close>

definition alice :: User where
  "alice = \<lparr>uID = 1, Username = ''alice'', Role = ''GUEST'', Room = ''101'', uCreatedAt = 0\<rparr>"

definition bob :: User where
  "bob = \<lparr>uID = 2, Username = ''bob'', Role = ''STAFF'', Room = [], uCreatedAt = 0\<rparr>"

definition twelve_hours :: int where
  "twelve_hours = 12 * 3600 * 1000000000"

definition zero_bytes :: "nat \<Rightarrow> char" where
  "zero_bytes n = CHR 0x00"

definition zero_id :: string where
  "zero_id = replicate 64 (CHR ''0'')"

text \<open>A draw of 32 different bytes, \<^verbatim>\<open>0x0b, 0x30, 0x55, ...\<close>, and its encoding.\<close>

definition counting_bytes :: "nat \<Rightarrow> char" where
  "counting_bytes n = char_of (n * 37 + 11)"

definition counting_id :: string where
  "counting_id = ''0b30557a9fc4e90e33587da2c7ec11365b80a5caef14395e83a8cdf2173c6186''"

definition alice_session :: Session where
  "alice_session = \<lparr>ID = zero_id, User = alice, CreatedAt = 1000\<rparr>"

definition alice_store :: Store where
  "alice_store = \<lparr>sessions = [zero_id \<mapsto> alice_session], ttl = twelve_hours\<rparr>"

definition ev :: "int \<Rightarrow> EventRecord" where
  "ev n = \<lparr>ReceivedAt = n, Topic = ''tickets/created'',
           Payload = \<lparr>s_arr = nat n, s_off = 0, s_len = 2, s_cap = 2\<rparr>\<rparr>"

definition payloads :: "string list" where
  "payloads = [''{}'', ''{}'', ''{}'', ''{}'']"

text \<open>A growth policy: at least double, rounded up to a multiple of eight.\<close>

definition roundup8 :: "nat \<Rightarrow> nat \<Rightarrow> nat" where
  "roundup8 c n = 8 * ((max (2 * c) n + 7) div 8)"

text \<open>The first record of a run, as the callback builds it for the payload \<^verbatim>\<open>{}\<close>, the
  bytes it points to, the buffer of capacity 2 that holds it, and a snapshot of that
  buffer.\<close>

definition first_event :: EventRecord where
  "first_event = \<lparr>ReceivedAt = 1, Topic = ''tickets/created'',
                  Payload = \<lparr>s_arr = 0, s_off = 0, s_len = 2, s_cap = 8\<rparr>\<rparr>"

definition first_bytes :: "string list" where
  "first_bytes = [[CHR ''{'', CHR ''}'', CHR 0x00, CHR 0x00, CHR 0x00, CHR 0x00, CHR 0x00, CHR 0x00]]"

definition overwritten_bytes :: "string list" where
  "overwritten_bytes = [[CHR ''X'', CHR ''}'', CHR 0x00, CHR 0x00, CHR 0x00, CHR 0x00, CHR 0x00, CHR 0x00]]"

definition no_event :: "EventRecord list list \<times> RingBuffer" where
  "no_event = ([[EventRecord_zero, EventRecord_zero]],
               \<lparr>max' = 2, arr = \<lparr>s_arr = 0, s_off = 0, s_len = 0, s_cap = 2\<rparr>\<rparr>)"

definition one_event :: "EventRecord list list \<times> RingBuffer" where
  "one_event = ([[first_event, EventRecord_zero]],
                \<lparr>max' = 2, arr = \<lparr>s_arr = 0, s_off = 0, s_len = 1, s_cap = 2\<rparr>\<rparr>)"

definition one_event_snapshot :: "EventRecord list list \<times> slice" where
  "one_event_snapshot = ([[first_event, EventRecord_zero], [first_event]],
                         \<lparr>s_arr = 1, s_off = 0, s_len = 1, s_cap = 1\<rparr>)"

definition k1 :: string where
  "k1 = ''{\"k\":1}''"

definition full_box :: chan where
  "full_box = \<lparr>buf = replicate 25 ''{}'', cap = 25, closed = False\<rparr>"

definition empty_box :: chan where
  "empty_box = \<lparr>buf = [], cap = 25, closed = False\<rparr>"

definition busy_hub :: Hub where
  "busy_hub =
     \<lparr>mailboxes = [full_box, empty_box],
      broadcast = \<lparr>buf = [k1], cap = 100, closed = False\<rparr>,
      clients = [1, 0]\<rparr>"

definition jammed_hub :: Hub where
  "jammed_hub =
     \<lparr>mailboxes = [], broadcast = \<lparr>buf = replicate 100 ''{}'', cap = 100, closed = False\<rparr>,
      clients = []\<rparr>"

definition hello_envelope :: string where
  "hello_envelope = ''{\"event\":\"raw\",\"payload\":\"hello\"}''"

definition after_hello :: Hub where
  "after_hello =
     \<lparr>mailboxes = [full_box, \<lparr>buf = [k1, hello_envelope], cap = 25, closed = False\<rparr>],
      broadcast = \<lparr>buf = [], cap = 100, closed = False\<rparr>,
      clients = [1, 0]\<rparr>"

section \<open>Properties of the session store\<close>

lemma time_Since_exact:
  "minDuration \<le> now - t \<Longrightarrow> now - t \<le> maxDuration \<Longrightarrow> time_Since now t = now - t"
  by (simp add: time_Since_def time_Sub_def)

lemma time_Since_le_iff:
  "d < maxDuration \<Longrightarrow> minDuration \<le> d \<Longrightarrow> time_Since now t \<le> d \<longleftrightarrow> now - t \<le> d"
  by (auto simp: time_Since_def time_Sub_def minDuration_def maxDuration_def)

lemma Get_absent: "sessions s i = None \<Longrightarrow> Get s now i = (s, Session_zero, False)"
  by (simp add: Get_def)

lemma Get_fresh:
  "sessions s i = Some ss \<Longrightarrow> time_Since now (CreatedAt ss) \<le> ttl s \<Longrightarrow> Get s now i = (s, ss, True)"
  by (simp add: Get_def)

lemma Get_expired:
  "sessions s i = Some ss \<Longrightarrow> ttl s < time_Since now (CreatedAt ss) \<Longrightarrow>
   Get s now i = (Delete s i, Session_zero, False)"
  by (simp add: Get_def)

lemma sessions_Delete: "sessions (Delete s i) j = (if j = i then None else sessions s j)"
  by (simp add: Delete_def)

lemma ttl_Delete: "ttl (Delete s i) = ttl s"
  by (simp add: Delete_def)

lemma Delete_absent: "sessions s i = None \<Longrightarrow> Delete s i = s"
  by (simp add: Delete_def fun_upd_idem)

lemma length_hex_EncodeToString: "length (hex_EncodeToString b) = 2 * length b"
  by (induction b) simp_all

lemma length_hextable: "length hextable = 16"
  by (simp add: hextable_def)

lemma hextable_nth_in: "n < 16 \<Longrightarrow> hextable ! n \<in> set hextable"
  by (rule nth_mem) (simp add: length_hextable)

lemma set_hex_EncodeToString: "set (hex_EncodeToString b) \<subseteq> set hextable"
proof (induction b)
  case Nil
  show ?case by simp
next
  case (Cons v b)
  have hi: "(of_char v :: nat) div 16 < 16"
    by (simp add: less_mult_imp_div_less)
  have lo: "(of_char v :: nat) mod 16 < 16"
    by simp
  from Cons hextable_nth_in [OF hi] hextable_nth_in [OF lo] show ?case
    by simp
qed

lemma newID_Unavailable: "newID (Unavailable why) = Inl why"
  by (simp add: newID_def rand_Read_def)

lemma newID_Supplies: "newID (Supplies f) = Inr (hex_EncodeToString (map f [0..<32]))"
  by (simp add: newID_def rand_Read_def)

lemma Create_Unavailable: "Create s (Unavailable why) now u = (s, Inl why)"
  by (simp add: Create_def newID_Unavailable)

lemma Create_Supplies:
  "Create s (Supplies f) now u =
     (s\<lparr>sessions := (sessions s)(hex_EncodeToString (map f [0..<32]) \<mapsto>
          \<lparr>ID = hex_EncodeToString (map f [0..<32]), User = u, CreatedAt = now\<rparr>)\<rparr>,
      Inr \<lparr>ID = hex_EncodeToString (map f [0..<32]), User = u, CreatedAt = now\<rparr>)"
  by (simp add: Create_def newID_Supplies Let_def)

text \<open>
  Claim C4. \<^verbatim>\<open>Get(id)\<close> returns the session exactly when an entry for the id is present
  and its age, the duration \<^verbatim>\<open>time.Since(createdAt)\<close>, is at most the ttl; it then returns
  the stored entry and leaves the store as it is. An absent id is a miss that changes
  nothing. A miss by expiry deletes the entry (and only that entry) within the same
  \<^verbatim>\<open>Get\<close>, so the id is absent afterwards and a following \<^verbatim>\<open>Get\<close> of it, at any
  time, misses again and changes nothing further. The age is the difference
  \<open>now - createdAt\<close> whenever that difference fits a \<^verbatim>\<open>time.Duration\<close> (about 292 years
  either way).
\<close>

theorem Get_hit_iff_present_and_within_ttl:
  "(snd (snd (Get s now i)) \<longleftrightarrow>
      (\<exists>ss. sessions s i = Some ss \<and> time_Since now (CreatedAt ss) \<le> ttl s))
   \<and> (\<forall>ss. sessions s i = Some ss \<and> time_Since now (CreatedAt ss) \<le> ttl s \<longrightarrow>
          Get s now i = (s, ss, True))
   \<and> (sessions s i = None \<longrightarrow> Get s now i = (s, Session_zero, False))
   \<and> (\<forall>ss. sessions s i = Some ss \<and> ttl s < time_Since now (CreatedAt ss) \<longrightarrow>
          Get s now i = (Delete s i, Session_zero, False)
          \<and> sessions (fst (Get s now i)) i = None
          \<and> (\<forall>j. j \<noteq> i \<longrightarrow> sessions (fst (Get s now i)) j = sessions s j)
          \<and> ttl (fst (Get s now i)) = ttl s
          \<and> (\<forall>now'. Get (fst (Get s now i)) now' i = (fst (Get s now i), Session_zero, False)))
   \<and> (\<forall>t. minDuration \<le> now - t \<and> now - t \<le> maxDuration \<longrightarrow> time_Since now t = now - t)"
proof (cases "sessions s i")
  case None
  then show ?thesis by (simp add: Get_absent time_Since_exact)
next
  case (Some ss)
  show ?thesis
  proof (cases "time_Since now (CreatedAt ss) \<le> ttl s")
    case True
    with Some show ?thesis by (simp add: Get_fresh time_Since_exact)
  next
    case False
    with Some have g: "Get s now i = (Delete s i, Session_zero, False)"
      by (simp add: Get_expired)
    have again: "Get (Delete s i) now' i = (Delete s i, Session_zero, False)" for now'
      by (rule Get_absent) (simp add: sessions_Delete)
    from Some False g again show ?thesis
      by (simp add: sessions_Delete ttl_Delete time_Since_exact)
  qed
qed

theorem Get_hit_iff_present_and_within_ttl_witness:
  "sessions alice_store zero_id = Some alice_session
   \<and> time_Since 2000 (CreatedAt alice_session) \<le> ttl alice_store
   \<and> Get alice_store 2000 zero_id = (alice_store, alice_session, True)
   \<and> ttl alice_store < time_Since (1001 + twelve_hours) (CreatedAt alice_session)
   \<and> Get alice_store (1001 + twelve_hours) zero_id = (Delete alice_store zero_id, Session_zero, False)
   \<and> sessions (Delete alice_store zero_id) zero_id = None
   \<and> Get (Delete alice_store zero_id) 2000 zero_id = (Delete alice_store zero_id, Session_zero, False)"
proof -
  have present: "sessions alice_store zero_id = Some alice_session"
    by (simp add: alice_store_def)
  have fresh: "time_Since 2000 (CreatedAt alice_session) \<le> ttl alice_store"
    by (simp add: alice_store_def alice_session_def twelve_hours_def time_Since_def time_Sub_def
        minDuration_def maxDuration_def)
  have stale: "ttl alice_store < time_Since (1001 + twelve_hours) (CreatedAt alice_session)"
    by (simp add: alice_store_def alice_session_def twelve_hours_def time_Since_def time_Sub_def
        minDuration_def maxDuration_def)
  have hit: "Get alice_store 2000 zero_id = (alice_store, alice_session, True)"
    using Get_hit_iff_present_and_within_ttl [of alice_store 2000 zero_id] present fresh
    by blast
  have miss: "Get alice_store (1001 + twelve_hours) zero_id
                = (Delete alice_store zero_id, Session_zero, False)"
    using Get_hit_iff_present_and_within_ttl [of alice_store "1001 + twelve_hours" zero_id]
      present stale
    by blast
  have again: "Get (fst (Get alice_store (1001 + twelve_hours) zero_id)) 2000 zero_id
                = (fst (Get alice_store (1001 + twelve_hours) zero_id), Session_zero, False)"
    using Get_hit_iff_present_and_within_ttl [of alice_store "1001 + twelve_hours" zero_id]
      present stale
    by blast
  have gone: "sessions (Delete alice_store zero_id) zero_id = None"
    by (simp add: sessions_Delete)
  from again have again': "Get (Delete alice_store zero_id) 2000 zero_id
                = (Delete alice_store zero_id, Session_zero, False)"
    unfolding miss fst_conv .
  from present fresh stale hit miss again' gone show ?thesis
    by (intro conjI)
qed

lemma zero_id_drawn: "hex_EncodeToString (map zero_bytes [0..<32]) = zero_id"
proof -
  have enc: "hex_EncodeToString (replicate n (CHR 0x00)) = replicate (2 * n) (CHR ''0'')" for n
    by (induction n) (simp_all add: hextable_def)
  have "map zero_bytes [0..<n] = replicate n (CHR 0x00)" for n
    by (induction n) (simp_all add: zero_bytes_def replicate_append_same)
  then have "map zero_bytes [0..<32] = replicate 32 (CHR 0x00)" .
  with enc [of 32] show ?thesis
    by (simp add: zero_id_def)
qed

lemma counting_id_drawn: "hex_EncodeToString (map counting_bytes [0..<32]) = counting_id"
  by (simp add: counting_bytes_def counting_id_def hextable_def upt_rec)

lemma hex_EncodeToString_nth:
  "k < length b \<Longrightarrow>
     hex_EncodeToString b ! (2 * k) = hextable ! (of_char (b ! k) div 16)
     \<and> hex_EncodeToString b ! (2 * k + 1) = hextable ! (of_char (b ! k) mod 16)"
proof (induction b arbitrary: k)
  case Nil
  then show ?case by simp
next
  case (Cons v b)
  show ?case
  proof (cases k)
    case 0
    then show ?thesis by simp
  next
    case (Suc j)
    with Cons.prems have "j < length b"
      by simp
    from Cons.IH [OF this] Suc show ?thesis
      by simp
  qed
qed

lemma distinct_hextable: "distinct hextable"
  by (simp add: hextable_def)

lemma hextable_nth_inj:
  "i < 16 \<Longrightarrow> j < 16 \<Longrightarrow> hextable ! i = hextable ! j \<Longrightarrow> i = j"
  using distinct_hextable by (simp add: nth_eq_iff_index_eq length_hextable)

text \<open>The two digits written for a byte determine the byte.\<close>

lemma byte_from_digits:
  assumes "hextable ! (of_char v div 16) = hextable ! (of_char w div 16)"
    and "hextable ! (of_char v mod 16) = hextable ! (of_char w mod 16)"
  shows "v = w"
proof -
  have "(of_char v :: nat) div 16 < 16" "(of_char w :: nat) div 16 < 16"
    by (simp_all add: less_mult_imp_div_less)
  from hextable_nth_inj [OF this assms(1)]
  have hi: "(of_char v :: nat) div 16 = of_char w div 16" .
  have "(of_char v :: nat) mod 16 < 16" "(of_char w :: nat) mod 16 < 16"
    by simp_all
  from hextable_nth_inj [OF this assms(2)]
  have lo: "(of_char v :: nat) mod 16 = of_char w mod 16" .
  have "(of_char v :: nat) = 16 * (of_char v div 16) + of_char v mod 16"
    by simp
  also have "\<dots> = 16 * (of_char w div 16) + of_char w mod 16"
    by (simp only: hi lo)
  also have "\<dots> = of_char w"
    by simp
  finally show ?thesis
    by simp
qed

lemma hex_EncodeToString_inj:
  "hex_EncodeToString a = hex_EncodeToString b \<Longrightarrow> a = b"
proof (induction a arbitrary: b)
  case Nil
  then show ?case by (cases b) simp_all
next
  case (Cons v a)
  then obtain w b' where b: "b = w # b'"
    by (cases b) auto
  with Cons.prems have "v = w" "hex_EncodeToString a = hex_EncodeToString b'"
    by (auto intro: byte_from_digits)
  with Cons.IH b show ?case
    by simp
qed

text \<open>
  Claim C5. \<^verbatim>\<open>Create(principal)\<close> returns an error exactly when the entropy source fails,
  and then hands back the store as it was. When the source supplies bytes, the session
  returned has as id the hexadecimal encoding of the 32 bytes read: 64 characters, all
  of them hexadecimal digits, where characters \<^verbatim>\<open>2k\<close> and \<^verbatim>\<open>2k+1\<close> are the digits of
  \<^verbatim>\<open>0123456789abcdef\<close> at the high and the low four bits of byte \<^verbatim>\<open>k\<close>, so that two draws
  that differ in one of their 32 bytes give different ids. The session carries the
  principal and the clock reading, and is the entry stored under that id; every other
  entry and the ttl stay as they were.
\<close>

theorem Create_fails_iff_entropy_unavailable:
  "((\<exists>why. snd (Create s src now u) = Inl why) \<longleftrightarrow> (\<exists>why. src = Unavailable why))
   \<and> (\<forall>why. src = Unavailable why \<longrightarrow> Create s src now u = (s, Inl why))
   \<and> (\<forall>f. src = Supplies f \<longrightarrow>
         (\<exists>ss. snd (Create s src now u) = Inr ss
            \<and> ID ss = hex_EncodeToString (map f [0..<32])
            \<and> length (map f [0..<32]) = 32
            \<and> length (ID ss) = 64
            \<and> set (ID ss) \<subseteq> set hextable
            \<and> (\<forall>k<32. ID ss ! (2 * k) = ''0123456789abcdef'' ! (of_char (f k) div 16)
                     \<and> ID ss ! (2 * k + 1) = ''0123456789abcdef'' ! (of_char (f k) mod 16))
            \<and> (\<forall>g. newID (Supplies g) = Inr (ID ss) \<longleftrightarrow> (\<forall>k<32. g k = f k))
            \<and> ss = \<lparr>ID = ID ss, User = u, CreatedAt = now\<rparr>
            \<and> sessions (fst (Create s src now u)) (ID ss) = Some ss
            \<and> (\<forall>j. j \<noteq> ID ss \<longrightarrow> sessions (fst (Create s src now u)) j = sessions s j)
            \<and> ttl (fst (Create s src now u)) = ttl s))"
proof (cases src)
  case (Unavailable why)
  then show ?thesis by (simp add: Create_Unavailable)
next
  case (Supplies f)
  let ?i = "hex_EncodeToString (map f [0..<32])"
  have digits: "?i ! (2 * k) = ''0123456789abcdef'' ! (of_char (f k) div 16)
                \<and> ?i ! (2 * k + 1) = ''0123456789abcdef'' ! (of_char (f k) mod 16)"
    if "k < 32" for k
    using hex_EncodeToString_nth [of k "map f [0..<32]"] that
    by (simp add: hextable_def)
  have same: "newID (Supplies g) = Inr ?i \<longleftrightarrow> (\<forall>k<32. g k = f k)" for g
  proof
    assume "newID (Supplies g) = Inr ?i"
    then have "hex_EncodeToString (map g [0..<32]) = ?i"
      by (simp add: newID_Supplies)
    then have "map g [0..<32] = map f [0..<32]"
      by (rule hex_EncodeToString_inj)
    then show "\<forall>k<32. g k = f k"
      by simp
  next
    assume "\<forall>k<32. g k = f k"
    then have "map g [0..<32] = map f [0..<32]"
      by simp
    then show "newID (Supplies g) = Inr ?i"
      by (simp only: newID_Supplies)
  qed
  from Supplies digits same show ?thesis
    by (simp add: Create_Supplies length_hex_EncodeToString set_hex_EncodeToString)
qed

theorem Create_fails_iff_entropy_unavailable_witness:
  "Create (NewStore twelve_hours) (Unavailable ''unexpected EOF'') 1000 alice
     = (NewStore twelve_hours, Inl ''unexpected EOF'')
   \<and> snd (Create (NewStore twelve_hours) (Supplies zero_bytes) 1000 alice) = Inr alice_session
   \<and> sessions (fst (Create (NewStore twelve_hours) (Supplies zero_bytes) 1000 alice)) zero_id
       = Some alice_session
   \<and> length zero_id = 64
   \<and> map (\<lambda>k. of_char (counting_bytes k)) [0, 1, 2, 31] = [0x0b, 0x30, 0x55, 0x86 :: nat]
   \<and> snd (Create (NewStore twelve_hours) (Supplies counting_bytes) 1000 alice)
       = Inr \<lparr>ID = ''0b30557a9fc4e90e33587da2c7ec11365b80a5caef14395e83a8cdf2173c6186'',
              User = alice, CreatedAt = 1000\<rparr>
   \<and> sessions (fst (Create (NewStore twelve_hours) (Supplies counting_bytes) 1000 alice))
        ''0b30557a9fc4e90e33587da2c7ec11365b80a5caef14395e83a8cdf2173c6186''
       = Some \<lparr>ID = ''0b30557a9fc4e90e33587da2c7ec11365b80a5caef14395e83a8cdf2173c6186'',
               User = alice, CreatedAt = 1000\<rparr>
   \<and> newID (Supplies zero_bytes)
       \<noteq> Inr ''0b30557a9fc4e90e33587da2c7ec11365b80a5caef14395e83a8cdf2173c6186''"
proof -
  note unavailable = Create_fails_iff_entropy_unavailable
      [of "NewStore twelve_hours" "Unavailable ''unexpected EOF''" 1000 alice]
  note zeros = Create_fails_iff_entropy_unavailable
      [of "NewStore twelve_hours" "Supplies zero_bytes" 1000 alice]
  note counting = Create_fails_iff_entropy_unavailable
      [of "NewStore twelve_hours" "Supplies counting_bytes" 1000 alice]
  have drawn: "map (\<lambda>k. of_char (counting_bytes k)) [0, 1, 2, 31]
                 = [0x0b, 0x30, 0x55, 0x86 :: nat]"
    by (simp add: counting_bytes_def)
  from unavailable
  have c1: "Create (NewStore twelve_hours) (Unavailable ''unexpected EOF'') 1000 alice
              = (NewStore twelve_hours, Inl ''unexpected EOF'')"
    by simp
  from zeros
  have c2: "snd (Create (NewStore twelve_hours) (Supplies zero_bytes) 1000 alice)
              = Inr alice_session
            \<and> sessions (fst (Create (NewStore twelve_hours) (Supplies zero_bytes) 1000 alice))
                zero_id = Some alice_session
            \<and> length zero_id = 64"
    by (auto simp: zero_id_drawn alice_session_def)
  from counting obtain ss
    where made: "snd (Create (NewStore twelve_hours) (Supplies counting_bytes) 1000 alice)
                   = Inr ss"
      and i: "ID ss = hex_EncodeToString (map counting_bytes [0..<32])"
      and other: "\<forall>g. newID (Supplies g) = Inr (ID ss) \<longleftrightarrow> (\<forall>k<32. g k = counting_bytes k)"
      and ss: "ss = \<lparr>ID = ID ss, User = alice, CreatedAt = 1000\<rparr>"
      and stored: "sessions (fst (Create (NewStore twelve_hours) (Supplies counting_bytes)
                     1000 alice)) (ID ss) = Some ss"
    by blast
  from i have i': "ID ss = ''0b30557a9fc4e90e33587da2c7ec11365b80a5caef14395e83a8cdf2173c6186''"
    by (simp only: counting_id_drawn counting_id_def)
  from ss i'
  have ss': "ss = \<lparr>ID = ''0b30557a9fc4e90e33587da2c7ec11365b80a5caef14395e83a8cdf2173c6186'',
                   User = alice, CreatedAt = 1000\<rparr>"
    by simp
  have "(of_char (zero_bytes 0) :: nat) \<noteq> of_char (counting_bytes 0)"
    by (simp add: zero_bytes_def counting_bytes_def)
  then have "zero_bytes 0 \<noteq> counting_bytes 0"
    by auto
  then have "\<not> (\<forall>k<32. zero_bytes k = counting_bytes k)"
    by (metis zero_less_numeral)
  with other i'
  have c4: "newID (Supplies zero_bytes)
              \<noteq> Inr ''0b30557a9fc4e90e33587da2c7ec11365b80a5caef14395e83a8cdf2173c6186''"
    by simp
  from made ss'
  have c3a: "snd (Create (NewStore twelve_hours) (Supplies counting_bytes) 1000 alice)
       = Inr \<lparr>ID = ''0b30557a9fc4e90e33587da2c7ec11365b80a5caef14395e83a8cdf2173c6186'',
              User = alice, CreatedAt = 1000\<rparr>"
    by simp
  from stored i' ss'
  have c3b: "sessions (fst (Create (NewStore twelve_hours) (Supplies counting_bytes) 1000
                alice)) ''0b30557a9fc4e90e33587da2c7ec11365b80a5caef14395e83a8cdf2173c6186''
       = Some \<lparr>ID = ''0b30557a9fc4e90e33587da2c7ec11365b80a5caef14395e83a8cdf2173c6186'',
               User = alice, CreatedAt = 1000\<rparr>"
    by simp
  from c1 c2 drawn c3a c3b c4 show ?thesis
    by (intro conjI) blast+
qed

lemma sessions_Create:
  "sessions (fst (Create s src now u)) j =
     (case newID src of
        Inl why \<Rightarrow> sessions s j
      | Inr i \<Rightarrow> if j = i then Some \<lparr>ID = i, User = u, CreatedAt = now\<rparr> else sessions s j)"
  by (simp add: Create_def Let_def split: sum.splits)

lemma sessions_Get:
  "sessions s j = Some ss \<Longrightarrow>
   sessions (fst (Get s now i)) j =
     (if j = i \<and> ttl s < time_Since now (CreatedAt ss) then None else Some ss)"
  by (cases "sessions s i") (auto simp: Get_def sessions_Delete)

text \<open>
  Claim C6, as stated, fails on the code: \<^verbatim>\<open>Create\<close> stores the new session with
  \<^verbatim>\<open>s.sessions[id] = ss\<close> without looking the id up first, so a \<^verbatim>\<open>Create\<close> whose random
  draw repeats the id of a stored session replaces that session. The example is the store
  holding alice's session under the id of 32 zero bytes, and a \<^verbatim>\<open>Create\<close> for bob that
  draws 32 zero bytes again.
\<close>

theorem Create_replaces_entry_on_id_collision:
  "sessions alice_store zero_id = Some alice_session
   \<and> sessions (apply_op alice_store (OpCreate (Supplies zero_bytes) 5000 bob)) zero_id
       = Some \<lparr>ID = zero_id, User = bob, CreatedAt = 5000\<rparr>
   \<and> \<lparr>ID = zero_id, User = bob, CreatedAt = 5000\<rparr> \<noteq> alice_session"
  by (simp add: sessions_Create newID_Supplies zero_id_drawn alice_store_def alice_session_def
      alice_def bob_def)

text \<open>
  Claim C6, amended. \<^verbatim>\<open>Get\<close> on a session that has not expired returns it and leaves the
  whole store unchanged (the creation time included: the ttl window is counted from
  creation and never restarts). For every operation and every stored entry, the entry
  after the operation is the same entry, or it is gone and the operation was a
  \<^verbatim>\<open>Delete\<close> of its id or a \<^verbatim>\<open>Get\<close> of its id after expiry, or the operation was a
  \<^verbatim>\<open>Create\<close> whose fresh random id is that very id. No operation changes the ttl.
\<close>

theorem entry_changed_only_by_deletion_or_colliding_Create:
  "(\<forall>ss now i. sessions s i = Some ss \<and> time_Since now (CreatedAt ss) \<le> ttl s \<longrightarrow>
        Get s now i = (s, ss, True) \<and> apply_op s (OpGet now i) = s)
   \<and> (\<forall>ss j. sessions s j = Some ss \<longrightarrow>
          sessions (apply_op s op) j = Some ss
        \<or> (sessions (apply_op s op) j = None
             \<and> (op = OpDelete j
                \<or> (\<exists>now. op = OpGet now j \<and> ttl s < time_Since now (CreatedAt ss))))
        \<or> (\<exists>src now u. op = OpCreate src now u \<and> newID src = Inr j))
   \<and> ttl (apply_op s op) = ttl s"
proof (intro conjI allI impI)
  fix ss now i
  assume "sessions s i = Some ss \<and> time_Since now (CreatedAt ss) \<le> ttl s"
  then show "Get s now i = (s, ss, True)"
    by (simp add: Get_fresh)
  then show "apply_op s (OpGet now i) = s"
    by simp
next
  fix ss j
  assume stored: "sessions s j = Some ss"
  show "sessions (apply_op s op) j = Some ss
        \<or> (sessions (apply_op s op) j = None
             \<and> (op = OpDelete j
                \<or> (\<exists>now. op = OpGet now j \<and> ttl s < time_Since now (CreatedAt ss))))
        \<or> (\<exists>src now u. op = OpCreate src now u \<and> newID src = Inr j)"
  proof (cases op)
    case (OpCreate src now u)
    with stored show ?thesis
      by (cases "newID src") (simp_all add: sessions_Create)
  next
    case (OpGet now i)
    with stored show ?thesis
      by (simp add: sessions_Get)
  next
    case (OpDelete i)
    with stored show ?thesis
      by (simp add: sessions_Delete)
  qed
next
  show "ttl (apply_op s op) = ttl s"
  proof (cases op)
    case (OpCreate src now u)
    then show ?thesis
      by (simp add: Create_def Let_def split: sum.splits)
  next
    case (OpGet now i)
    then show ?thesis
      by (simp add: Get_def ttl_Delete split: option.splits)
  next
    case (OpDelete i)
    then show ?thesis
      by (simp add: ttl_Delete)
  qed
qed

theorem entry_changed_only_by_deletion_or_colliding_Create_witness:
  "sessions alice_store zero_id = Some alice_session
   \<and> time_Since 2000 (CreatedAt alice_session) \<le> ttl alice_store
   \<and> Get alice_store 2000 zero_id = (alice_store, alice_session, True)
   \<and> apply_op alice_store (OpGet 2000 zero_id) = alice_store"
proof -
  have present: "sessions alice_store zero_id = Some alice_session"
    by (simp add: alice_store_def)
  have fresh: "time_Since 2000 (CreatedAt alice_session) \<le> ttl alice_store"
    by (simp add: alice_store_def alice_session_def twelve_hours_def time_Since_def time_Sub_def
        minDuration_def maxDuration_def)
  from present fresh
    entry_changed_only_by_deletion_or_colliding_Create [of alice_store "OpGet 2000 zero_id"]
  show ?thesis
    by blast
qed

section \<open>Properties of the ring buffer\<close>

lemma NewRingBuffer_eq:
  "NewRingBuffer limit mem m =
     (if int limit < (if m \<le> 0 then 50 else m) then Inl CapOutOfRange
      else Inr (mem @ [replicate (nat (if m \<le> 0 then 50 else m)) EventRecord_zero],
                \<lparr>max' = (if m \<le> 0 then 50 else m),
                 arr = \<lparr>s_arr = length mem, s_off = 0, s_len = 0,
                        s_cap = nat (if m \<le> 0 then 50 else m)\<rparr>\<rparr>))"
  by (simp add: NewRingBuffer_def make_slice_def Let_def)

lemma NewRingBuffer_ok:
  "NewRingBuffer limit mem m = Inr st \<Longrightarrow>
     rb_ok limit st \<and> held st = [] \<and> max' (snd st) = (if m \<le> 0 then 50 else m)"
  by (auto simp: NewRingBuffer_eq rb_ok_def held_def slice_read_def Let_def split: if_splits)

lemma write_at_single: "i < length xs \<Longrightarrow> write_at xs i [e] = xs[i := e]"
  by (simp add: write_at_def upd_conv_take_nth_drop)

lemma take_Suc_update_last:
  "n < length xs \<Longrightarrow> take (Suc n) (xs[n := e]) = take n xs @ [e]"
  by (simp add: take_Suc_conv_app_nth)

lemma shift_left_then_set_last:
  assumes "xs \<noteq> []"
  shows "(write_at xs 0 (drop (Suc 0) xs)) [length xs - Suc 0 := e] = tl xs @ [e]"
proof -
  from assms obtain x ys where xs: "xs = x # ys"
    by (cases xs) auto
  have "write_at (x # ys) 0 ys = ys @ drop (length ys) (x # ys)"
    by (simp add: write_at_def)
  also have "drop (length ys) (x # ys) = [last (x # ys)]"
    by (induction ys arbitrary: x) simp_all
  finally have w: "write_at (x # ys) 0 ys = ys @ [last (x # ys)]" .
  show ?thesis
    by (simp add: xs w)
qed

lemma Add_not_full:
  assumes ok: "rb_ok limit (mem, rb)" and room: "int (s_len (arr rb)) < max' rb"
  shows "Add grow limit (mem, rb) e =
           Inr (mem[s_arr (arr rb) := (mem ! s_arr (arr rb))[s_len (arr rb) := e]],
                rb\<lparr>arr := (arr rb)\<lparr>s_len := s_len (arr rb) + 1\<rparr>\<rparr>)"
proof -
  from ok room have lt: "s_len (arr rb) < length (mem ! s_arr (arr rb))"
    and fits: "s_len (arr rb) + 1 \<le> s_cap (arr rb)" and off: "s_off (arr rb) = 0"
    by (auto simp: rb_ok_def Let_def)
  from room fits off show ?thesis
    by (simp add: Add_def go_append_def Let_def write_at_single [OF lt])
qed

lemma Add_full:
  assumes ok: "rb_ok limit (mem, rb)" and full: "\<not> int (s_len (arr rb)) < max' rb"
  shows "Add grow limit (mem, rb) e =
           Inr (mem[s_arr (arr rb) := tl (mem ! s_arr (arr rb)) @ [e]], rb)"
proof -
  let ?s = "arr rb" and ?xs = "mem ! s_arr (arr rb)"
  from ok full have len: "s_len ?s = s_cap ?s" "length ?xs = s_len ?s" "0 < s_len ?s"
    "s_off ?s = 0" "s_arr ?s < length mem"
    by (auto simp: rb_ok_def Let_def)
  then have ne: "?xs \<noteq> []"
    by auto
  have src: "slice_from ?s (Suc 0)
              = Inr (?s\<lparr>s_off := Suc 0, s_len := s_len ?s - Suc 0, s_cap := s_cap ?s - Suc 0\<rparr>)"
    using len by (simp add: slice_from_def)
  have cp: "go_copy mem ?s (?s\<lparr>s_off := Suc 0, s_len := s_len ?s - Suc 0, s_cap := s_cap ?s - Suc 0\<rparr>)
             = (mem[s_arr ?s := write_at ?xs 0 (drop (Suc 0) ?xs)], s_len ?s - 1)"
    using len by (simp add: go_copy_def slice_read_def Let_def)
  have iw: "index_write (mem[s_arr ?s := write_at ?xs 0 (drop (Suc 0) ?xs)]) ?s (int (s_len ?s) - 1) e
             = Inr (mem[s_arr ?s := (write_at ?xs 0 (drop (Suc 0) ?xs))[length ?xs - Suc 0 := e]])"
    using len by (simp add: index_write_def nat_diff_distrib')
  have "Add grow limit (mem, rb) e =
          Inr (mem[s_arr ?s := (write_at ?xs 0 (drop (Suc 0) ?xs)) [length ?xs - Suc 0 := e]], rb)"
    using full by (simp add: Add_def src cp iw)
  then show ?thesis
    by (simp only: shift_left_then_set_last [OF ne])
qed

lemma Add_held_pair:
  assumes ok: "rb_ok limit (mem, rb)"
  shows "\<exists>mem' rb'. Add grow limit (mem, rb) e = Inr (mem', rb') \<and> rb_ok limit (mem', rb')
           \<and> max' rb' = max' rb
           \<and> s_arr (arr rb') = s_arr (arr rb)
           \<and> length mem' = length mem
           \<and> held (mem', rb') = (if int (length (held (mem, rb))) < max' rb then held (mem, rb) @ [e]
                          else tl (held (mem, rb)) @ [e])"
proof -
  let ?s = "arr rb" and ?xs = "mem ! s_arr (arr rb)"
  from ok have shape: "0 < max' rb" "s_arr ?s < length mem" "s_off ?s = 0"
    "int (s_cap ?s) = max' rb" "length ?xs = s_cap ?s" "s_len ?s \<le> s_cap ?s" "s_cap ?s \<le> limit"
    by (auto simp: rb_ok_def Let_def)
  have h: "held (mem, rb) = take (s_len ?s) ?xs"
    by (simp add: held_def slice_read_def shape)
  then have lh: "length (held (mem, rb)) = s_len ?s"
    using shape by simp
  show ?thesis
  proof (cases "int (s_len ?s) < max' rb")
    case True
    then have lt: "s_len ?s < length ?xs"
      using shape by simp
    from True ok have a: "Add grow limit (mem, rb) e =
        Inr (mem[s_arr ?s := ?xs[s_len ?s := e]], rb\<lparr>arr := ?s\<lparr>s_len := s_len ?s + 1\<rparr>\<rparr>)"
      by (simp add: Add_not_full)
    have ok': "rb_ok limit (mem[s_arr ?s := ?xs[s_len ?s := e]], rb\<lparr>arr := ?s\<lparr>s_len := s_len ?s + 1\<rparr>\<rparr>)"
      using lt shape by (simp add: rb_ok_def Let_def)
    have h': "held (mem[s_arr ?s := ?xs[s_len ?s := e]], rb\<lparr>arr := ?s\<lparr>s_len := s_len ?s + 1\<rparr>\<rparr>)
               = take (s_len ?s) ?xs @ [e]"
      using lt shape by (simp add: held_def slice_read_def take_Suc_update_last)
    from True lt ok' h' show ?thesis
      by (simp add: a lh h)
  next
    case False
    then have full: "s_len ?s = length ?xs"
      using shape by simp
    from False ok have a: "Add grow limit (mem, rb) e = Inr (mem[s_arr ?s := tl ?xs @ [e]], rb)"
      by (simp add: Add_full)
    have ne: "?xs \<noteq> []" using full shape False by auto
    have ok': "rb_ok limit (mem[s_arr ?s := tl ?xs @ [e]], rb)"
      using ne shape full by (simp add: rb_ok_def Let_def)
    have h': "held (mem[s_arr ?s := tl ?xs @ [e]], rb) = tl ?xs @ [e]"
      using ne shape full by (simp add: held_def slice_read_def)
    from False ok' h' show ?thesis
      by (simp add: a lh h full)
  qed
qed

lemma Add_held:
  assumes ok: "rb_ok limit st"
  shows "\<exists>st'. Add grow limit st e = Inr st' \<and> rb_ok limit st' \<and> max' (snd st') = max' (snd st)
           \<and> s_arr (arr (snd st')) = s_arr (arr (snd st))
           \<and> length (fst st') = length (fst st)
           \<and> held st' = (if int (length (held st)) < max' (snd st) then held st @ [e]
                          else tl (held st) @ [e])"
  using Add_held_pair [of limit "fst st" "snd st" grow e] ok by auto

lemma rb_ok_length_held: "rb_ok limit st \<Longrightarrow> int (length (held st)) \<le> max' (snd st)"
  by (auto simp: rb_ok_def held_def slice_read_def Let_def)

lemma keep_last_step:
  assumes "length h \<le> m" and "0 < m"
  shows "(if length h < m then h @ [e] else tl h @ [e]) = drop (length h + 1 - m) (h @ [e])"
proof (cases "length h < m")
  case True
  then show ?thesis by simp
next
  case False
  with assms have "length h = m" "h \<noteq> []"
    by auto
  then show ?thesis
    by (cases h) simp_all
qed

lemma Add_all_held:
  assumes "rb_ok limit st"
  shows "\<exists>st'. Add_all grow limit st es = Inr st' \<and> rb_ok limit st'
           \<and> max' (snd st') = max' (snd st)
           \<and> s_arr (arr (snd st')) = s_arr (arr (snd st))
           \<and> length (fst st') = length (fst st)
           \<and> held st' = drop (length (held st) + length es - nat (max' (snd st))) (held st @ es)"
  using assms
proof (induction es arbitrary: st)
  case Nil
  from rb_ok_length_held [OF Nil] have "length (held st) - nat (max' (snd st)) = 0"
    by simp
  with Nil show ?case
    by simp
next
  case (Cons e es)
  let ?m = "nat (max' (snd st))"
  from Add_held [OF Cons.prems, of grow e] obtain st1 where
    a: "Add grow limit st e = Inr st1" and ok1: "rb_ok limit st1"
    and m1: "max' (snd st1) = max' (snd st)"
    and p1: "s_arr (arr (snd st1)) = s_arr (arr (snd st))" and l1: "length (fst st1) = length (fst st)"
    and h1: "held st1 = (if int (length (held st)) < max' (snd st) then held st @ [e]
                          else tl (held st) @ [e])"
    by blast
  have pos: "0 < ?m"
    using Cons.prems by (simp add: rb_ok_def Let_def)
  have le: "length (held st) \<le> ?m"
    using rb_ok_length_held [OF Cons.prems] by simp
  have h1n: "held st1 = (if length (held st) < ?m then held st @ [e] else tl (held st) @ [e])"
    using h1 pos by (simp add: zless_nat_eq_int_zless)
  from Cons.IH [OF ok1] obtain st' where
    b: "Add_all grow limit st1 es = Inr st'" and ok': "rb_ok limit st'"
    and m': "max' (snd st') = max' (snd st1)"
    and p': "s_arr (arr (snd st')) = s_arr (arr (snd st1))" and l': "length (fst st') = length (fst st1)"
    and h': "held st' = drop (length (held st1) + length es - nat (max' (snd st1))) (held st1 @ es)"
    by blast
  have "held st' = drop (length (held st) + length (e # es) - ?m) (held st @ e # es)"
  proof (cases "length (held st) < ?m")
    case True
    with h1n have "held st1 = held st @ [e]"
      by simp
    then show ?thesis
      by (simp add: h' m1)
  next
    case False
    with le have full: "length (held st) = ?m"
      by simp
    with pos obtain x xs where hx: "held st = x # xs"
      by (cases "held st") auto
    from False h1n have "held st1 = tl (held st) @ [e]"
      by simp
    then show ?thesis
      using full by (simp add: h' m1 hx)
  qed
  with a b ok' m' m1 p' p1 l' l1 show ?case
    by simp
qed

lemma Snapshot_eq:
  assumes ok: "rb_ok limit (mem, rb)"
  shows "Snapshot limit mem rb =
           Inr (mem @ [held (mem, rb)],
                \<lparr>s_arr = length mem, s_off = 0, s_len = s_len (arr rb), s_cap = s_len (arr rb)\<rparr>)"
proof -
  let ?s = "arr rb" and ?n = "s_len (arr rb)"
  let ?out = "\<lparr>s_arr = length mem, s_off = 0, s_len = ?n, s_cap = ?n\<rparr>"
  from ok have shape: "s_arr ?s < length mem" "s_off ?s = 0"
    "length (mem ! s_arr ?s) = s_cap ?s" "?n \<le> s_cap ?s" "s_cap ?s \<le> limit"
    by (auto simp: rb_ok_def Let_def)
  have mk: "make_slice EventRecord_zero limit mem (int ?n) (int ?n)
              = Inr (mem @ [replicate ?n EventRecord_zero], ?out)"
    using shape by (simp add: make_slice_def)
  have rd: "slice_read (mem @ [replicate ?n EventRecord_zero]) ?s = held (mem, rb)"
    using shape by (simp add: held_def slice_read_def nth_append)
  have ln: "length (held (mem, rb)) = ?n"
    using shape by (simp add: held_def slice_read_def)
  have cp: "fst (go_copy (mem @ [replicate ?n EventRecord_zero]) ?out ?s) = mem @ [held (mem, rb)]"
    using ln by (simp add: go_copy_def Let_def rd write_at_def)
  show ?thesis
    by (simp add: Snapshot_def mk cp)
qed

lemma held_unaffected_by_later_array:
  assumes "s_arr (arr rb) < length mem"
  shows "held (mem @ [xs], rb) = held (mem, rb)"
    and "held (mem @ [xs] @ ys, rb) = held (mem, rb)"
  using assms by (simp_all add: held_def slice_read_def nth_append)

text \<open>A write through a slice changes the element it names, in every view of the array.\<close>

lemma index_write_read:
  assumes "index_write mem s j v = Inr mem'" and "slice_ok mem s"
  shows "0 \<le> j \<and> nat j < length (slice_read mem s)
         \<and> slice_read mem' s = (slice_read mem s)[nat j := v]"
proof -
  from assms(1) have j: "0 \<le> j" "nat j < s_len s"
    and mem': "mem' = mem[s_arr s := (mem ! s_arr s)[s_off s + nat j := v]]"
    by (auto simp: index_write_def split: if_splits)
  from j assms(2) have a: "s_arr s < length mem" and fit: "s_off s + s_len s \<le> length (mem ! s_arr s)"
    by (auto simp: slice_ok_def)
  from fit have l: "length (slice_read mem s) = s_len s"
    by (simp add: slice_read_def)
  have "slice_read mem' s = (slice_read mem s)[nat j := v]"
    using a by (simp add: mem' slice_read_def drop_update_swap take_update_swap)
  with j l show ?thesis
    by simp
qed

lemma new_record_private:
  assumes "new_record grow limit bts now topic p = Inr (bts', r)"
  shows "ReceivedAt r = now \<and> Topic r = topic \<and> slice_ok bts' (Payload r)
         \<and> slice_read bts' (Payload r) = p
         \<and> (p \<noteq> [] \<longrightarrow> s_arr (Payload r) = length bts \<and> length bts' = Suc (length bts))
         \<and> take (length bts) bts' = bts"
  using assms
  by (auto simp: new_record_def go_append_def nil_slice_def slice_ok_def slice_read_def Let_def
      split: if_splits)


lemma shown_changed:
  assumes "k < length rs"
    and "slice_read bts' (Payload (rs ! k)) \<noteq> slice_read bts (Payload (rs ! k))"
  shows "shown bts' rs \<noteq> shown bts rs"
proof
  assume "shown bts' rs = shown bts rs"
  then have "shown bts' rs ! k = shown bts rs ! k"
    by simp
  with assms(1) have "slice_read bts' (Payload (rs ! k)) = slice_read bts (Payload (rs ! k))"
    by (simp add: shown_def)
  with assms(2) show False
    by simp
qed

text \<open>
  Claim C10, as stated, fails on the code in its last part. \<^verbatim>\<open>Snapshot\<close> copies the
  records with \<^verbatim>\<open>copy\<close>, and a record's \<^verbatim>\<open>Payload\<close> is a \<^verbatim>\<open>json.RawMessage\<close>, a slice of
  bytes: the copy of a record points to the same bytes as the record in the buffer. The
  example is a buffer of capacity 2 holding one record with the payload \<^verbatim>\<open>{}\<close>, built as
  the subscription callback builds it. After \<^verbatim>\<open>out := rb.Snapshot()\<close> and
  \<^verbatim>\<open>out[0].Payload[0] = 'X'\<close> the buffer, which no one has touched, shows the payload
  \<^verbatim>\<open>X}\<close>.
\<close>

theorem Snapshot_shares_payload_bytes:
  "new_record roundup8 1000 [] 1 ''tickets/created'' ''{}'' = Inr (first_bytes, first_event)
   \<and> NewRingBuffer 1000 [] 2 = Inr no_event
   \<and> Add roundup8 1000 no_event first_event = Inr one_event
   \<and> held one_event = [first_event]
   \<and> shown first_bytes (held one_event) = [(1, ''tickets/created'', ''{}'')]
   \<and> Snapshot 1000 (fst one_event) (snd one_event) = Inr one_event_snapshot
   \<and> payload_write (fst one_event_snapshot) first_bytes (snd one_event_snapshot) 0 0 (CHR ''X'')
       = Inr overwritten_bytes
   \<and> held (fst one_event_snapshot, snd one_event) = [first_event]
   \<and> shown overwritten_bytes (held (fst one_event_snapshot, snd one_event))
       = [(1, ''tickets/created'', ''X}'')]"
proof -
  have six: "replicate 6 (CHR 0x00) = [CHR 0x00, CHR 0x00, CHR 0x00, CHR 0x00, CHR 0x00, CHR 0x00]"
    by (simp add: eval_nat_numeral)
  have c1: "new_record roundup8 1000 [] 1 ''tickets/created'' ''{}'' = Inr (first_bytes, first_event)"
    by (simp add: new_record_def go_append_def nil_slice_def roundup8_def slice_read_def
        first_bytes_def first_event_def Let_def six)
  have two: "replicate 2 EventRecord_zero = [EventRecord_zero, EventRecord_zero]"
    by (simp add: eval_nat_numeral)
  have c2: "NewRingBuffer 1000 [] 2 = Inr no_event"
    by (simp add: NewRingBuffer_eq no_event_def two)
  have ok: "rb_ok 1000 ([[EventRecord_zero, EventRecord_zero]],
               \<lparr>max' = 2, arr = \<lparr>s_arr = 0, s_off = 0, s_len = 0, s_cap = 2\<rparr>\<rparr>)"
    by (simp add: rb_ok_def Let_def)
  have c3: "Add roundup8 1000 no_event first_event = Inr one_event"
    unfolding no_event_def by (simp add: Add_not_full [OF ok] one_event_def)
  have c4: "held one_event = [first_event]"
    by (simp add: held_def slice_read_def one_event_def)
  have ok1: "rb_ok 1000 ([[first_event, EventRecord_zero]],
                \<lparr>max' = 2, arr = \<lparr>s_arr = 0, s_off = 0, s_len = 1, s_cap = 2\<rparr>\<rparr>)"
    by (simp add: rb_ok_def Let_def)
  have c6: "Snapshot 1000 (fst one_event) (snd one_event) = Inr one_event_snapshot"
    using Snapshot_eq [OF ok1]
    by (simp add: one_event_def one_event_snapshot_def held_def slice_read_def)
  have c7: "payload_write (fst one_event_snapshot) first_bytes (snd one_event_snapshot) 0 0
              (CHR ''X'') = Inr overwritten_bytes"
    by (simp add: payload_write_def index_read_def index_write_def one_event_snapshot_def
        first_event_def first_bytes_def overwritten_bytes_def)
  have c8: "held (fst one_event_snapshot, snd one_event) = [first_event]"
    by (simp add: held_def slice_read_def one_event_def one_event_snapshot_def)
  have c5: "shown first_bytes (held one_event) = [(1, ''tickets/created'', ''{}'')]"
    by (simp add: c4 shown_def first_event_def first_bytes_def slice_read_def)
  have c9: "shown overwritten_bytes (held (fst one_event_snapshot, snd one_event))
       = [(1, ''tickets/created'', ''X}'')]"
    by (simp add: c8 shown_def first_event_def overwritten_bytes_def slice_read_def)
  from c1 c2 c3 c4 c5 c6 c7 c8 c9 show ?thesis
    by (intro conjI)
qed

text \<open>
  Claim C10, amended. \<^verbatim>\<open>NewRingBuffer(max)\<close> asks for capacity \<open>max\<close>, or 50 when
  \<open>max \<le> 0\<close>; it panics (\<^verbatim>\<open>makeslice: cap out of range\<close>) when that is more than the
  runtime allocates, and otherwise returns an empty buffer of that capacity. After any
  sequence of \<^verbatim>\<open>Add\<close> calls (none of which panics, whatever the runtime's growth policy)
  the buffer holds at most that many records, and they are the most recent ones in
  arrival order: the sequence added, without all but its last \<open>max\<close> elements. One more
  \<^verbatim>\<open>Add\<close> appends the record when there is room and otherwise drops exactly the oldest
  record and puts the new one at the end. \<^verbatim>\<open>Snapshot\<close> returns a slice with the same
  records in a backing array of its own: an assignment to an element of the returned
  slice, or an \<^verbatim>\<open>append\<close> to it, leaves the records held by the buffer as they were. The
  copy goes no deeper: a write to a byte of the payload of a record of the snapshot writes
  the byte that the buffer's record points to, so that the payload read through the
  buffer changes with it. A record built by the subscription callback carries the time,
  the topic and a payload that reads as the broker's bytes.
\<close>

theorem RingBuffer_holds_most_recent:
  "(int limit < (if m \<le> 0 then 50 else m) \<longrightarrow> NewRingBuffer limit mem m = Inl CapOutOfRange)
   \<and> (\<forall>blimit bytes now topic p bytes' r.
         new_record grow blimit bytes now topic p = Inr (bytes', r) \<longrightarrow>
           ReceivedAt r = now \<and> Topic r = topic \<and> slice_ok bytes' (Payload r)
           \<and> slice_read bytes' (Payload r) = p)
   \<and> ((if m \<le> 0 then 50 else m) \<le> int limit \<longrightarrow>
       (\<exists>st0. NewRingBuffer limit mem m = Inr st0
          \<and> max' (snd st0) = (if m \<le> 0 then 50 else m)
          \<and> held st0 = []
          \<and> (\<exists>st. Add_all grow limit st0 es = Inr st
                \<and> max' (snd st) = (if m \<le> 0 then 50 else m)
                \<and> int (length (held st)) \<le> max' (snd st)
                \<and> held st = drop (length es - nat (max' (snd st))) es
                \<and> (\<forall>e. \<exists>st'. Add grow limit st e = Inr st'
                       \<and> held st' = (if int (length (held st)) < max' (snd st)
                                      then held st @ [e] else tl (held st) @ [e]))
                \<and> (\<exists>mem' out. Snapshot limit (fst st) (snd st) = Inr (mem', out)
                       \<and> slice_read mem' out = held st
                       \<and> s_len out = length (held st)
                       \<and> s_arr out \<noteq> s_arr (arr (snd st))
                       \<and> held (mem', snd st) = held st
                       \<and> (\<forall>i v mem''. index_write mem' out i v = Inr mem'' \<longrightarrow>
                              held (mem'', snd st) = held st
                              \<and> slice_read mem'' out = (held st)[nat i := v])
                       \<and> (\<forall>v mem'' out'.
                              go_append grow EventRecord_zero limit mem' out [v]
                                = Inr (mem'', out') \<longrightarrow>
                              held (mem'', snd st) = held st
                              \<and> slice_read mem'' out' = held st @ [v])
                       \<and> (\<forall>bts i j b bts'.
                              payload_write mem' bts out i j b = Inr bts'
                              \<and> slice_ok bts (Payload (held st ! nat i)) \<longrightarrow>
                              0 \<le> i \<and> nat i < length (held st)
                              \<and> 0 \<le> j
                              \<and> nat j < length (slice_read bts (Payload (held st ! nat i)))
                              \<and> slice_read bts' (Payload (held st ! nat i))
                                  = (slice_read bts (Payload (held st ! nat i)))[nat j := b]
                              \<and> (slice_read bts (Payload (held st ! nat i)) ! nat j \<noteq> b \<longrightarrow>
                                    shown bts' (held st) \<noteq> shown bts (held st)))))))"
proof -
  let ?cap = "if m \<le> 0 then 50 else m"
  let ?Snap = "\<lambda>st mem' out. Snapshot limit (fst st) (snd st) = Inr (mem', out)
                       \<and> slice_read mem' out = held st
                       \<and> s_len out = length (held st)
                       \<and> s_arr out \<noteq> s_arr (arr (snd st))
                       \<and> held (mem', snd st) = held st
                       \<and> (\<forall>i v mem''. index_write mem' out i v = Inr mem'' \<longrightarrow>
                              held (mem'', snd st) = held st
                              \<and> slice_read mem'' out = (held st)[nat i := v])
                       \<and> (\<forall>v mem'' out'.
                              go_append grow EventRecord_zero limit mem' out [v]
                                = Inr (mem'', out') \<longrightarrow>
                              held (mem'', snd st) = held st
                              \<and> slice_read mem'' out' = held st @ [v])
                       \<and> (\<forall>bts i j b bts'.
                              payload_write mem' bts out i j b = Inr bts'
                              \<and> slice_ok bts (Payload (held st ! nat i)) \<longrightarrow>
                              0 \<le> i \<and> nat i < length (held st)
                              \<and> 0 \<le> j
                              \<and> nat j < length (slice_read bts (Payload (held st ! nat i)))
                              \<and> slice_read bts' (Payload (held st ! nat i))
                                  = (slice_read bts (Payload (held st ! nat i)))[nat j := b]
                              \<and> (slice_read bts (Payload (held st ! nat i)) ! nat j \<noteq> b \<longrightarrow>
                                    shown bts' (held st) \<noteq> shown bts (held st)))"
  let ?Adds = "\<lambda>st0 st. Add_all grow limit st0 es = Inr st
                \<and> max' (snd st) = ?cap
                \<and> int (length (held st)) \<le> max' (snd st)
                \<and> held st = drop (length es - nat (max' (snd st))) es
                \<and> (\<forall>e. \<exists>st'. Add grow limit st e = Inr st'
                       \<and> held st' = (if int (length (held st)) < max' (snd st)
                                      then held st @ [e] else tl (held st) @ [e]))
                \<and> (\<exists>mem' out. ?Snap st mem' out)"
  have refused: "int limit < ?cap \<longrightarrow> NewRingBuffer limit mem m = Inl CapOutOfRange"
    by (simp add: NewRingBuffer_eq)
  have built: "\<forall>blimit bytes now topic p bytes' r.
         new_record grow blimit bytes now topic p = Inr (bytes', r) \<longrightarrow>
           ReceivedAt r = now \<and> Topic r = topic \<and> slice_ok bytes' (Payload r)
           \<and> slice_read bytes' (Payload r) = p"
    using new_record_private by blast
  have granted: "?cap \<le> int limit \<longrightarrow>
       (\<exists>st0. NewRingBuffer limit mem m = Inr st0 \<and> max' (snd st0) = ?cap \<and> held st0 = []
          \<and> (\<exists>st. ?Adds st0 st))"
  proof
    assume fits: "?cap \<le> int limit"
    then obtain st0 where n: "NewRingBuffer limit mem m = Inr st0"
      by (simp add: NewRingBuffer_eq)
    from NewRingBuffer_ok [OF n] have ok0: "rb_ok limit st0" and h0: "held st0 = []"
      and m0: "max' (snd st0) = ?cap"
      by simp_all
    from Add_all_held [OF ok0, of grow es] obtain st where
      a: "Add_all grow limit st0 es = Inr st" and ok: "rb_ok limit st"
      and ms: "max' (snd st) = max' (snd st0)"
      and hs: "held st = drop (length (held st0) + length es - nat (max' (snd st0))) (held st0 @ es)"
      by blast
    obtain mem1 rb where st: "st = (mem1, rb)"
      by (cases st)
    from ok st have shape: "s_arr (arr rb) < length mem1" "s_off (arr rb) = 0"
      "length (mem1 ! s_arr (arr rb)) = s_cap (arr rb)" "s_len (arr rb) \<le> s_cap (arr rb)"
      by (auto simp: rb_ok_def Let_def)
    let ?out = "\<lparr>s_arr = length mem1, s_off = 0, s_len = s_len (arr rb), s_cap = s_len (arr rb)\<rparr>"
    let ?mem' = "mem1 @ [held st]"
    have lh: "length (held st) = s_len (arr rb)"
      using shape by (simp add: st held_def slice_read_def)
    have snap: "Snapshot limit (fst st) (snd st) = Inr (?mem', ?out)"
      using Snapshot_eq [of limit mem1 rb] ok by (simp add: st)
    have rd: "slice_read ?mem' ?out = held st"
      using lh by (simp add: slice_read_def)
    have keep: "held (?mem', snd st) = held st"
      using shape by (simp add: st held_unaffected_by_later_array)
    have wr: "held (mem'', snd st) = held st \<and> slice_read mem'' ?out = (held st)[nat i := v]"
      if "index_write ?mem' ?out i v = Inr mem''" for i v mem''
    proof -
      from that have "mem'' = mem1 @ [(held st)[nat i := v]]"
        by (simp add: index_write_def split: if_splits)
      then show ?thesis
        using shape lh by (simp add: st held_unaffected_by_later_array slice_read_def)
    qed
    have ap: "held (mem'', snd st) = held st \<and> slice_read mem'' out' = held st @ [v]"
      if "go_append grow EventRecord_zero limit ?mem' ?out [v] = Inr (mem'', out')"
      for v mem'' out'
    proof -
      let ?c = "max (grow (s_len (arr rb)) (s_len (arr rb) + 1)) (s_len (arr rb) + 1)"
      from that rd have m'': "mem'' = ?mem' @ [held st @ [v] @ replicate (?c - (s_len (arr rb) + 1))
                                                  EventRecord_zero]"
        and o': "out' = \<lparr>s_arr = length ?mem', s_off = 0, s_len = s_len (arr rb) + 1, s_cap = ?c\<rparr>"
        by (auto simp: go_append_def Let_def split: if_splits)
      have "held (mem'', snd st) = held st"
        using shape unfolding m'' by (simp add: st held_def slice_read_def nth_append)
      moreover have "slice_read mem'' out' = held st @ [v]"
        unfolding m'' o' using lh by (simp add: slice_read_def nth_append)
      ultimately show ?thesis ..
    qed
    have pw: "0 \<le> i \<and> nat i < length (held st) \<and> 0 \<le> j
              \<and> nat j < length (slice_read bts (Payload (held st ! nat i)))
              \<and> slice_read bts' (Payload (held st ! nat i))
                  = (slice_read bts (Payload (held st ! nat i)))[nat j := b]
              \<and> (slice_read bts (Payload (held st ! nat i)) ! nat j \<noteq> b \<longrightarrow>
                    shown bts' (held st) \<noteq> shown bts (held st))"
      if "payload_write ?mem' bts ?out i j b = Inr bts'
          \<and> slice_ok bts (Payload (held st ! nat i))"
      for bts i j b bts'
    proof -
      let ?r = "held st ! nat i"
      from that have w: "payload_write ?mem' bts ?out i j b = Inr bts'"
        and sok: "slice_ok bts (Payload ?r)"
        by simp_all
      from w have i: "0 \<le> i" "nat i < s_len (arr rb)"
        by (auto simp: payload_write_def index_read_def split: if_splits)
      then have "\<not> (i < 0 \<or> int (s_len (arr rb)) \<le> i)"
        by linarith
      then have "index_read ?mem' ?out i = Inr ?r"
        by (simp add: index_read_def)
      with w have iw: "index_write bts (Payload ?r) j b = Inr bts'"
        by (simp add: payload_write_def)
      from index_write_read [OF iw sok] have j: "0 \<le> j"
        and jl: "nat j < length (slice_read bts (Payload ?r))"
        and new: "slice_read bts' (Payload ?r) = (slice_read bts (Payload ?r))[nat j := b]"
        by simp_all
      have "shown bts' (held st) \<noteq> shown bts (held st)"
        if diff: "slice_read bts (Payload ?r) ! nat j \<noteq> b"
      proof (rule shown_changed [of "nat i"])
        show "nat i < length (held st)"
          using i lh by simp
        have "(slice_read bts (Payload ?r))[nat j := b] ! nat j = b"
          using jl by simp
        with diff have "(slice_read bts (Payload ?r))[nat j := b] \<noteq> slice_read bts (Payload ?r)"
          by metis
        with new show "slice_read bts' (Payload ?r) \<noteq> slice_read bts (Payload ?r)"
          by simp
      qed
      with i j jl new lh show ?thesis
        by simp
    qed
    have one: "\<exists>st'. Add grow limit st e = Inr st'
                    \<and> held st' = (if int (length (held st)) < max' (snd st) then held st @ [e]
                                   else tl (held st) @ [e])" for e
      using Add_held [OF ok, of grow e] by blast
    have ne: "s_arr ?out \<noteq> s_arr (arr (snd st))"
      using shape by (simp add: st)
    have sl: "s_len ?out = length (held st)"
      by (simp add: lh)
    have ms': "max' (snd st) = ?cap"
      using ms m0 by simp
    have hs': "held st = drop (length es - nat (max' (snd st))) es"
      by (simp add: hs h0 ms)
    have wr': "\<forall>i v mem''. index_write ?mem' ?out i v = Inr mem'' \<longrightarrow>
                           held (mem'', snd st) = held st
                           \<and> slice_read mem'' ?out = (held st)[nat i := v]"
      using wr by blast
    have ap': "\<forall>v mem'' out'.
                  go_append grow EventRecord_zero limit ?mem' ?out [v] = Inr (mem'', out') \<longrightarrow>
                  held (mem'', snd st) = held st \<and> slice_read mem'' out' = held st @ [v]"
      using ap by blast
    have pw': "\<forall>bts i j b bts'.
                  payload_write ?mem' bts ?out i j b = Inr bts'
                  \<and> slice_ok bts (Payload (held st ! nat i)) \<longrightarrow>
                  0 \<le> i \<and> nat i < length (held st)
                  \<and> 0 \<le> j
                  \<and> nat j < length (slice_read bts (Payload (held st ! nat i)))
                  \<and> slice_read bts' (Payload (held st ! nat i))
                      = (slice_read bts (Payload (held st ! nat i)))[nat j := b]
                  \<and> (slice_read bts (Payload (held st ! nat i)) ! nat j \<noteq> b \<longrightarrow>
                        shown bts' (held st) \<noteq> shown bts (held st))"
      using pw by blast
    have snapped: "?Snap st ?mem' ?out"
      using snap rd sl ne keep wr' ap' pw' by (intro conjI)
    have snapshot: "\<exists>mem' out. ?Snap st mem' out"
      by (rule exI, rule exI) (rule snapped)
    have one': "\<forall>e. \<exists>st'. Add grow limit st e = Inr st'
                    \<and> held st' = (if int (length (held st)) < max' (snd st) then held st @ [e]
                                   else tl (held st) @ [e])"
      using one by blast
    have added: "?Adds st0 st"
      using a ms' rb_ok_length_held [OF ok] hs' one' snapshot by (intro conjI)
    have adds: "\<exists>st. ?Adds st0 st"
      by (rule exI) (rule added)
    from n m0 h0 adds have made: "NewRingBuffer limit mem m = Inr st0
       \<and> max' (snd st0) = ?cap \<and> held st0 = [] \<and> (\<exists>st. ?Adds st0 st)"
      by (intro conjI)
    show "\<exists>st0. NewRingBuffer limit mem m = Inr st0 \<and> max' (snd st0) = ?cap \<and> held st0 = []
          \<and> (\<exists>st. ?Adds st0 st)"
      by (rule exI) (rule made)
  qed
  from refused built granted show ?thesis
    by (intro conjI)
qed

theorem RingBuffer_holds_most_recent_witness:
  "NewRingBuffer 2 [] 3 = Inl CapOutOfRange
   \<and> (\<exists>bytes' r. new_record roundup8 1000 [] 7 ''tickets/created'' ''{\"id\":7}'' = Inr (bytes', r)
          \<and> ReceivedAt r = 7 \<and> Topic r = ''tickets/created''
          \<and> slice_read bytes' (Payload r) = ''{\"id\":7}'')
   \<and> (\<exists>st0 st mem' out mem'' bts'.
          NewRingBuffer 1000 [] 2 = Inr st0
          \<and> Add_all roundup8 1000 st0 [ev 1, ev 2, ev 3] = Inr st
          \<and> held st = [ev 2, ev 3]
          \<and> Snapshot 1000 (fst st) (snd st) = Inr (mem', out)
          \<and> index_write mem' out 0 (ev 9) = Inr mem''
          \<and> slice_read mem'' out = [ev 9, ev 3]
          \<and> held (mem'', snd st) = [ev 2, ev 3]
          \<and> slice_read payloads (Payload (ev 2)) = ''{}''
          \<and> payload_write mem' payloads out 0 1 (CHR ''X'') = Inr bts'
          \<and> slice_read bts' (Payload (ev 2)) = ''{X''
          \<and> shown bts' (held st) \<noteq> shown payloads (held st))"
proof -
  note small = RingBuffer_holds_most_recent [of 2 3 "[]" roundup8 "[]"]
  note inst = RingBuffer_holds_most_recent [of 1000 2 "[]" roundup8 "[ev 1, ev 2, ev 3]"]
  from small have c1: "NewRingBuffer 2 [] 3 = Inl CapOutOfRange"
    by simp
  have six: "replicate 6 (CHR 0x00) = [CHR 0x00, CHR 0x00, CHR 0x00, CHR 0x00, CHR 0x00, CHR 0x00]"
    by (simp add: eval_nat_numeral)
  obtain bytes' r where
    nr: "new_record roundup8 1000 [] 7 ''tickets/created'' ''{\"id\":7}'' = Inr (bytes', r)"
    by (simp add: new_record_def go_append_def nil_slice_def roundup8_def Let_def)
  from inst have "\<forall>blimit bytes now topic p bytes' r.
         new_record roundup8 blimit bytes now topic p = Inr (bytes', r) \<longrightarrow>
           ReceivedAt r = now \<and> Topic r = topic \<and> slice_ok bytes' (Payload r)
           \<and> slice_read bytes' (Payload r) = p"
    by blast
  with nr have "ReceivedAt r = 7 \<and> Topic r = ''tickets/created''
          \<and> slice_read bytes' (Payload r) = ''{\"id\":7}''"
    by blast
  with nr have c2: "\<exists>bytes' r.
          new_record roundup8 1000 [] 7 ''tickets/created'' ''{\"id\":7}'' = Inr (bytes', r)
          \<and> ReceivedAt r = 7 \<and> Topic r = ''tickets/created''
          \<and> slice_read bytes' (Payload r) = ''{\"id\":7}''"
    by blast
  have fits: "(if (2::int) \<le> 0 then 50 else 2) \<le> int 1000"
    by simp
  note granted = inst [THEN conjunct2, THEN conjunct2, THEN mp, OF fits]
  from granted obtain st0 st mem' out where
    n: "NewRingBuffer 1000 [] 2 = Inr st0"
    and a: "Add_all roundup8 1000 st0 [ev 1, ev 2, ev 3] = Inr st"
    and m: "max' (snd st) = (if (2::int) \<le> 0 then 50 else 2)"
    and h: "held st = drop (length [ev 1, ev 2, ev 3] - nat (max' (snd st))) [ev 1, ev 2, ev 3]"
    and s: "Snapshot 1000 (fst st) (snd st) = Inr (mem', out)"
    and rd: "slice_read mem' out = held st"
    and l: "s_len out = length (held st)"
    and w: "\<forall>i v mem''. index_write mem' out i v = Inr mem'' \<longrightarrow>
              held (mem'', snd st) = held st \<and> slice_read mem'' out = (held st)[nat i := v]"
    and p: "\<forall>bts i j b bts'.
              payload_write mem' bts out i j b = Inr bts'
              \<and> slice_ok bts (Payload (held st ! nat i)) \<longrightarrow>
              0 \<le> i \<and> nat i < length (held st)
              \<and> 0 \<le> j
              \<and> nat j < length (slice_read bts (Payload (held st ! nat i)))
              \<and> slice_read bts' (Payload (held st ! nat i))
                  = (slice_read bts (Payload (held st ! nat i)))[nat j := b]
              \<and> (slice_read bts (Payload (held st ! nat i)) ! nat j \<noteq> b \<longrightarrow>
                    shown bts' (held st) \<noteq> shown bts (held st))"
    by (elim exE conjE) (rule that)
  from h m have h': "held st = [ev 2, ev 3]"
    by simp
  with l have i: "index_write mem' out 0 (ev 9)
                   = Inr (mem'[s_arr out := (mem' ! s_arr out)[s_off out + nat 0 := ev 9]])"
    by (simp add: index_write_def)
  from w i have "held (mem'[s_arr out := (mem' ! s_arr out)[s_off out + nat 0 := ev 9]], snd st)
                   = held st
                 \<and> slice_read (mem'[s_arr out := (mem' ! s_arr out)[s_off out + nat 0 := ev 9]]) out
                   = (held st)[nat 0 := ev 9]"
    by blast
  with h' have r: "slice_read (mem'[s_arr out := (mem' ! s_arr out)[s_off out + nat 0 := ev 9]]) out
                   = [ev 9, ev 3]"
      "held (mem'[s_arr out := (mem' ! s_arr out)[s_off out + nat 0 := ev 9]], snd st)
                   = [ev 2, ev 3]"
    by simp_all
  have first: "mem' ! s_arr out ! (s_off out + nat 0) = ev 2"
  proof -
    from rd h' have "slice_read mem' out ! 0 = ev 2"
      by simp
    moreover from rd h' l have "0 < length (take (s_len out) (drop (s_off out) (mem' ! s_arr out)))"
      by (simp add: slice_read_def)
    ultimately show ?thesis
      by (simp add: slice_read_def)
  qed
  have before: "slice_read payloads (Payload (ev 2)) = ''{}''"
    by (simp add: slice_read_def payloads_def ev_def)
  have pok: "slice_ok payloads (Payload (held st ! nat 0))"
    by (simp add: h' slice_ok_def payloads_def ev_def)
  have pw: "payload_write mem' payloads out 0 1 (CHR ''X'')
              = Inr (payloads[2 := ''{X''])"
    using l h' first
    by (simp add: payload_write_def index_read_def index_write_def ev_def payloads_def)
  from p pw pok have "slice_read (payloads[2 := ''{X'']) (Payload (held st ! nat 0))
                  = (slice_read payloads (Payload (held st ! nat 0)))[nat 1 := CHR ''X'']
              \<and> (slice_read payloads (Payload (held st ! nat 0)) ! nat 1 \<noteq> CHR ''X'' \<longrightarrow>
                    shown (payloads[2 := ''{X'']) (held st) \<noteq> shown payloads (held st))"
    by blast
  with h' before have after: "slice_read (payloads[2 := ''{X'']) (Payload (ev 2)) = ''{X''"
    and seen: "shown (payloads[2 := ''{X'']) (held st) \<noteq> shown payloads (held st)"
    by simp_all
  from n a h' s i r before pw after seen
  have c3: "\<exists>st0 st mem' out mem'' bts'.
          NewRingBuffer 1000 [] 2 = Inr st0
          \<and> Add_all roundup8 1000 st0 [ev 1, ev 2, ev 3] = Inr st
          \<and> held st = [ev 2, ev 3]
          \<and> Snapshot 1000 (fst st) (snd st) = Inr (mem', out)
          \<and> index_write mem' out 0 (ev 9) = Inr mem''
          \<and> slice_read mem'' out = [ev 9, ev 3]
          \<and> held (mem'', snd st) = [ev 2, ev 3]
          \<and> slice_read payloads (Payload (ev 2)) = ''{}''
          \<and> payload_write mem' payloads out 0 1 (CHR ''X'') = Inr bts'
          \<and> slice_read bts' (Payload (ev 2)) = ''{X''
          \<and> shown bts' (held st) \<noteq> shown payloads (held st)"
    by (intro exI conjI)
  from c1 c2 c3 show ?thesis
    by (intro conjI)
qed

section \<open>Properties of the JSON functions\<close>

lemmas scanner_defs =
  json_Valid_def reset_def call_step_def eof_def scan_error_def pushParseState_def
  popParseState_def maxNestingDepth_def isSpace_def isDigit_def isDigit19_def isHex_def
  stateEndTop_def stateEndValue_def stateBeginValue_def stateBeginValueOrEmpty_def
  stateBeginString_def stateBeginStringOrEmpty_def stateInString_def stateInStringEsc_def
  stateInStringEscU_def stateInStringEscU1_def stateInStringEscU12_def
  stateInStringEscU123_def stateNeg_def state0_def state1_def stateDot_def stateDot0_def
  stateE_def stateESign_def stateE0_def expect_def

lemma json_Valid_empty_object: "json_Valid ''{}''"
  by (simp add: scanner_defs)






lemma in_string_same: "step s = InString \<Longrightarrow> s\<lparr>step := InString\<rparr> = s"
  by simp
















section \<open>Properties of the frames\<close>

lemma bytes_ReplaceAll_strips:
  "bytes_ReplaceAll data [CHR 0x0A] [] = filter (\<lambda>c. c \<noteq> CHR 0x0A) data"
  by (induction data) simp_all

lemma bytes_ReplaceAll_single:
  "bytes_ReplaceAll data [x] new = concat (map (\<lambda>c. if c = x then new else [c]) data)"
  by (induction data) simp_all

lemma blank_line_only_at_end:
  assumes "CHR 0x0A \<notin> set p" and "k + 2 \<le> length (p @ [CHR 0x0A, CHR 0x0A])"
    and "take 2 (drop k (p @ [CHR 0x0A, CHR 0x0A])) = [CHR 0x0A, CHR 0x0A]"
  shows "k = length p"
proof (rule ccontr)
  assume "k \<noteq> length p"
  with assms(2) have lt: "k < length p"
    by simp
  let ?f = "p @ [CHR 0x0A, CHR 0x0A]"
  from assms(3) have "hd (take 2 (drop k ?f)) = CHR 0x0A"
    by simp
  then have "hd (drop k ?f) = CHR 0x0A"
    by (simp only: hd_take zero_less_numeral)
  moreover from lt have "hd (drop k ?f) = ?f ! k"
    by (intro hd_drop_conv_nth) simp
  moreover from lt have "?f ! k = p ! k"
    by (simp add: nth_append)
  ultimately have "p ! k = CHR 0x0A"
    by simp
  with lt assms(1) show False
    by (metis nth_mem)
qed

text \<open>
  Claim C9. The bytes written for a message are \<^verbatim>\<open>data: \<close>, then the payload with every
  newline byte removed and all other bytes kept in order, then two newlines; exactly one
  such frame is appended to the stream per message, by \<^verbatim>\<open>writeSSE\<close> and by
  \<^verbatim>\<open>writeSSEBuffered\<close> alike, and it is what the stream loop writes for a message taken
  from its mailbox. No newline occurs in a frame before its two final ones,
  so the blank line that ends a frame is found at the end of the frame and nowhere else,
  whatever the payload.
\<close>

theorem frame_is_data_payload_without_newlines:
  "writeSSE w data = w @ ''data: '' @ filter (\<lambda>c. c \<noteq> CHR 0x0A) data @ [CHR 0x0A, CHR 0x0A]
   \<and> writeSSEBuffered w data = writeSSE w data
   \<and> writeSSE w data = w @ writeSSE [] data
   \<and> CHR 0x0A \<notin> set (''data: '' @ filter (\<lambda>c. c \<noteq> CHR 0x0A) data)
   \<and> (CHR 0x0A \<notin> set data \<longrightarrow> writeSSE w data = w @ ''data: '' @ data @ [CHR 0x0A, CHR 0x0A])
   \<and> (\<forall>k. k + 2 \<le> length (writeSSE [] data)
            \<and> take 2 (drop k (writeSSE [] data)) = [CHR 0x0A, CHR 0x0A]
          \<longrightarrow> k + 2 = length (writeSSE [] data))
   \<and> (\<forall>h client rest.
          client < length (mailboxes h) \<and> buf (mailboxes h ! client) = data # rest \<longrightarrow>
            SSE_mailbox h client w
              = Done (h\<lparr>mailboxes := (mailboxes h)[client := (mailboxes h ! client)\<lparr>buf := rest\<rparr>]\<rparr>,
                      w @ ''data: '' @ filter (\<lambda>c. c \<noteq> CHR 0x0A) data @ [CHR 0x0A, CHR 0x0A],
                      True))"
proof -
  let ?p = "''data: '' @ filter (\<lambda>c. c \<noteq> CHR 0x0A) data"
  have f: "writeSSE [] data = ?p @ [CHR 0x0A, CHR 0x0A]"
    by (simp add: writeSSE_def bytes_ReplaceAll_strips)
  have n: "CHR 0x0A \<notin> set ?p"
    by simp
  have only: "\<forall>k. k + 2 \<le> length (writeSSE [] data)
            \<and> take 2 (drop k (writeSSE [] data)) = [CHR 0x0A, CHR 0x0A]
          \<longrightarrow> k + 2 = length (writeSSE [] data)"
  proof (intro allI impI)
    fix k
    assume a: "k + 2 \<le> length (writeSSE [] data)
            \<and> take 2 (drop k (writeSSE [] data)) = [CHR 0x0A, CHR 0x0A]"
    then have "k = length ?p"
      unfolding f by (intro blank_line_only_at_end [OF n]) simp_all
    then show "k + 2 = length (writeSSE [] data)"
      unfolding f by simp
  qed
  have keep: "CHR 0x0A \<notin> set data \<longrightarrow> writeSSE w data = w @ ''data: '' @ data @ [CHR 0x0A, CHR 0x0A]"
    by (auto simp: writeSSE_def bytes_ReplaceAll_strips filter_id_conv)
  have a: "writeSSE w data = w @ ''data: '' @ filter (\<lambda>c. c \<noteq> CHR 0x0A) data @ [CHR 0x0A, CHR 0x0A]"
    by (simp add: writeSSE_def bytes_ReplaceAll_strips)
  have b: "writeSSEBuffered w data = writeSSE w data"
    by (simp add: writeSSE_def writeSSEBuffered_def)
  have c: "writeSSE w data = w @ writeSSE [] data"
    by (simp add: writeSSE_def)
  have loop: "\<forall>h client rest.
          client < length (mailboxes h) \<and> buf (mailboxes h ! client) = data # rest \<longrightarrow>
            SSE_mailbox h client w
              = Done (h\<lparr>mailboxes := (mailboxes h)[client := (mailboxes h ! client)\<lparr>buf := rest\<rparr>]\<rparr>,
                      w @ ''data: '' @ filter (\<lambda>c. c \<noteq> CHR 0x0A) data @ [CHR 0x0A, CHR 0x0A],
                      True)"
    by (simp add: SSE_mailbox_def chan_recv_def writeSSEBuffered_def bytes_ReplaceAll_strips)
  from a b c n keep only loop show ?thesis
    by (intro conjI)
qed

theorem frame_is_data_payload_without_newlines_witness:
  "CHR 0x0A \<notin> set k1
   \<and> writeSSE [] k1 = ''data: {\"k\":1}'' @ [CHR 0x0A, CHR 0x0A]
   \<and> writeSSEBuffered ''x'' [CHR ''a'', CHR 0x0A, CHR ''b'', CHR 0x0A] = ''xdata: ab'' @ [CHR 0x0A, CHR 0x0A]
   \<and> 13 + 2 \<le> length (writeSSE [] k1)
   \<and> take 2 (drop 13 (writeSSE [] k1)) = [CHR 0x0A, CHR 0x0A]
   \<and> 13 + 2 = length (writeSSE [] k1)
   \<and> 1 < length (mailboxes after_hello)
   \<and> buf (mailboxes after_hello ! 1) = k1 # [hello_envelope]
   \<and> SSE_mailbox after_hello 1 []
       = Done (after_hello\<lparr>mailboxes := (mailboxes after_hello)
                 [1 := (mailboxes after_hello ! 1)\<lparr>buf := [hello_envelope]\<rparr>]\<rparr>,
               ''data: {\"k\":1}'' @ [CHR 0x0A, CHR 0x0A], True)"
proof -
  have nl: "CHR 0x0A \<notin> set k1"
    by (simp add: k1_def)
  from frame_is_data_payload_without_newlines [of "[]" k1] nl
  have w1: "writeSSE [] k1 = ''data: {\"k\":1}'' @ [CHR 0x0A, CHR 0x0A]"
    by (simp add: k1_def)
  from frame_is_data_payload_without_newlines [of "''x''" "[CHR ''a'', CHR 0x0A, CHR ''b'', CHR 0x0A]"]
  have w2: "writeSSEBuffered ''x'' [CHR ''a'', CHR 0x0A, CHR ''b'', CHR 0x0A]
              = ''xdata: ab'' @ [CHR 0x0A, CHR 0x0A]"
    by simp
  have le: "13 + 2 \<le> length (writeSSE [] k1)"
    and tk: "take 2 (drop 13 (writeSSE [] k1)) = [CHR 0x0A, CHR 0x0A]"
    by (simp_all add: w1)
  with frame_is_data_payload_without_newlines [of "[]" k1]
  have "13 + 2 = length (writeSSE [] k1)"
    by blast
  moreover have box: "1 < length (mailboxes after_hello)"
    "buf (mailboxes after_hello ! 1) = k1 # [hello_envelope]"
    by (simp_all add: after_hello_def)
  moreover from frame_is_data_payload_without_newlines [of "[]" k1] box
  have "SSE_mailbox after_hello 1 []
       = Done (after_hello\<lparr>mailboxes := (mailboxes after_hello)
                 [1 := (mailboxes after_hello ! 1)\<lparr>buf := [hello_envelope]\<rparr>]\<rparr>,
               ''data: {\"k\":1}'' @ [CHR 0x0A, CHR 0x0A], True)"
    by (simp add: k1_def)
  ultimately show ?thesis
    using nl w1 w2 le tk by (intro conjI)
qed

lemma SSE_open_frame:
  "SSE_open w = w @ ''data: {\"event\":\"connected\"}'' @ [CHR 0x0A, CHR 0x0A]"
  by (simp add: SSE_open_def writeSSE_def)

section \<open>Properties of the hub\<close>

lemma hub_inv_NewHub: "hub_inv NewHub"
  by (simp add: hub_inv_def NewHub_def make_chan_def)

lemma hub_invD:
  assumes "hub_inv h"
  shows "distinct (clients h)"
    and "ch \<in> set (clients h) \<Longrightarrow> ch < length (mailboxes h)"
    and "ch \<in> set (clients h) \<Longrightarrow> \<not> closed (mailboxes h ! ch)"
    and "i < length (mailboxes h) \<Longrightarrow> cap (mailboxes h ! i) = 25"
    and "cap (broadcast h) = 100"
    and "\<not> closed (broadcast h)"
proof -
  from assms have a: "list_all (\<lambda>ch. ch < length (mailboxes h) \<and> \<not> closed (mailboxes h ! ch)) (clients h)"
    and b: "list_all (\<lambda>c. cap c = 25) (mailboxes h)"
    by (simp_all add: hub_inv_def)
  from assms show "distinct (clients h)" "cap (broadcast h) = 100" "\<not> closed (broadcast h)"
    by (simp_all add: hub_inv_def)
  from a show "ch \<in> set (clients h) \<Longrightarrow> ch < length (mailboxes h)"
    and "ch \<in> set (clients h) \<Longrightarrow> \<not> closed (mailboxes h ! ch)"
    by (simp_all add: list_all_iff)
  from b show "i < length (mailboxes h) \<Longrightarrow> cap (mailboxes h ! i) = 25"
    by (simp add: list_all_length)
qed

lemma hub_invI:
  assumes "distinct (clients h)"
    and "\<And>ch. ch \<in> set (clients h) \<Longrightarrow> ch < length (mailboxes h) \<and> \<not> closed (mailboxes h ! ch)"
    and "\<And>i. i < length (mailboxes h) \<Longrightarrow> cap (mailboxes h ! i) = 25"
    and "cap (broadcast h) = 100"
    and "\<not> closed (broadcast h)"
  shows "hub_inv h"
proof -
  have a: "list_all (\<lambda>ch. ch < length (mailboxes h) \<and> \<not> closed (mailboxes h ! ch)) (clients h)"
    using assms(2) by (simp add: list_all_iff)
  have b: "list_all (\<lambda>c. cap c = 25) (mailboxes h)"
    using assms(3) by (simp add: list_all_length)
  from a b assms(1,4,5) show ?thesis
    by (simp add: hub_inv_def)
qed

lemma select_send_default_open:
  "ch < length ms \<Longrightarrow> \<not> closed (ms ! ch) \<Longrightarrow>
   select_send_default ms ch msg = Done (ms[ch := deliver msg (ms ! ch)])"
  by (simp add: select_send_default_def chan_send_def deliver_def)

lemma select_send_default_not_Blocked: "select_send_default ms ch msg \<noteq> Blocked"
  by (simp add: select_send_default_def chan_send_def)

lemma fan_out_not_Blocked: "fan_out msg order ms \<noteq> Blocked"
proof (induction order arbitrary: ms)
  case Nil
  show ?case by simp
next
  case (Cons ch rest)
  show ?case
  proof (cases "select_send_default ms ch msg")
    case (Done ms')
    with Cons show ?thesis by simp
  next
    case Blocked
    with select_send_default_not_Blocked show ?thesis by blast
  next
    case (Panic p)
    then show ?thesis by simp
  qed
qed

lemma fan_out_open:
  assumes "distinct order"
    and "\<And>ch. ch \<in> set order \<Longrightarrow> ch < length ms \<and> \<not> closed (ms ! ch)"
  shows "\<exists>ms'. fan_out msg order ms = Done ms' \<and> length ms' = length ms
           \<and> (\<forall>i < length ms. ms' ! i = (if i \<in> set order then deliver msg (ms ! i) else ms ! i))"
  using assms
proof (induction order arbitrary: ms)
  case Nil
  show ?case by simp
next
  case (Cons ch rest)
  let ?ms1 = "ms[ch := deliver msg (ms ! ch)]"
  from Cons.prems have ch: "ch < length ms" "\<not> closed (ms ! ch)" "ch \<notin> set rest" "distinct rest"
    by auto
  have first: "select_send_default ms ch msg = Done ?ms1"
    using ch by (simp add: select_send_default_open)
  have rest_ok: "r < length ?ms1 \<and> \<not> closed (?ms1 ! r)" if "r \<in> set rest" for r
  proof -
    from that ch have "r \<noteq> ch" by auto
    with that Cons.prems(2) [of r] show ?thesis by simp
  qed
  from Cons.IH [OF ch(4) rest_ok] obtain ms' where
    r: "fan_out msg rest ?ms1 = Done ms'" and l: "length ms' = length ?ms1"
    and n: "\<forall>i < length ?ms1. ms' ! i = (if i \<in> set rest then deliver msg (?ms1 ! i) else ?ms1 ! i)"
    by blast
  have "ms' ! i = (if i \<in> set (ch # rest) then deliver msg (ms ! i) else ms ! i)"
    if "i < length ms" for i
    using n that ch by (cases "i = ch") auto
  with first r l show ?case
    by simp
qed

lemma fan_out_order_irrelevant:
  assumes "distinct xs" and "distinct ys" and "set xs = set ys"
    and "\<And>ch. ch \<in> set xs \<Longrightarrow> ch < length ms \<and> \<not> closed (ms ! ch)"
  shows "fan_out msg xs ms = fan_out msg ys ms"
proof -
  from fan_out_open [OF assms(1) assms(4), of msg] obtain a where
    a: "fan_out msg xs ms = Done a" "length a = length ms"
      "\<forall>i < length ms. a ! i = (if i \<in> set xs then deliver msg (ms ! i) else ms ! i)"
    by blast
  have "\<And>ch. ch \<in> set ys \<Longrightarrow> ch < length ms \<and> \<not> closed (ms ! ch)"
    using assms(3,4) by simp
  from fan_out_open [OF assms(2) this, of msg] obtain b where
    b: "fan_out msg ys ms = Done b" "length b = length ms"
      "\<forall>i < length ms. b ! i = (if i \<in> set ys then deliver msg (ms ! i) else ms ! i)"
    by blast
  from a b assms(3) have "a = b"
    by (simp add: list_eq_iff_nth_eq)
  with a b show ?thesis
    by simp
qed

lemma SSE_register_eq:
  "SSE_register h =
     (h\<lparr>mailboxes := mailboxes h @ [make_chan 25],
        clients := List.insert (length (mailboxes h)) (clients h)\<rparr>,
      length (mailboxes h))"
  by (simp add: SSE_register_def Run_register_def Let_def)

lemma SSE_register_fresh:
  assumes "hub_inv h"
  shows "snd (SSE_register h) \<notin> set (clients h)"
    and "clients (fst (SSE_register h)) = snd (SSE_register h) # clients h"
    and "hub_inv (fst (SSE_register h))"
proof -
  have notin: "length (mailboxes h) \<notin> set (clients h)"
    using hub_invD(2) [OF assms, of "length (mailboxes h)"] by auto
  then show "snd (SSE_register h) \<notin> set (clients h)"
    by (simp add: SSE_register_eq)
  from notin show cl: "clients (fst (SSE_register h)) = snd (SSE_register h) # clients h"
    by (simp add: SSE_register_eq)
  show "hub_inv (fst (SSE_register h))"
  proof (rule hub_invI)
    show "distinct (clients (fst (SSE_register h)))"
      using notin hub_invD(1) [OF assms] by (simp add: SSE_register_eq)
  next
    fix ch
    assume "ch \<in> set (clients (fst (SSE_register h)))"
    then have "ch = length (mailboxes h) \<or> ch \<in> set (clients h)"
      by (simp add: SSE_register_eq)
    then show "ch < length (mailboxes (fst (SSE_register h)))
               \<and> \<not> closed (mailboxes (fst (SSE_register h)) ! ch)"
    proof
      assume "ch = length (mailboxes h)"
      then show ?thesis
        by (simp add: SSE_register_eq make_chan_def)
    next
      assume "ch \<in> set (clients h)"
      with hub_invD(2,3) [OF assms, of ch] show ?thesis
        by (simp add: SSE_register_eq nth_append)
    qed
  next
    fix i
    assume "i < length (mailboxes (fst (SSE_register h)))"
    then show "cap (mailboxes (fst (SSE_register h)) ! i) = 25"
      using hub_invD(4) [OF assms, of i]
      by (cases "i < length (mailboxes h)") (auto simp: SSE_register_eq nth_append make_chan_def)
  next
    show "cap (broadcast (fst (SSE_register h))) = 100"
      using hub_invD(5) [OF assms] by (simp add: SSE_register_eq)
  next
    show "\<not> closed (broadcast (fst (SSE_register h)))"
      using hub_invD(6) [OF assms] by (simp add: SSE_register_eq)
  qed
qed

lemma Run_unregister_absent: "ch \<notin> set (clients h) \<Longrightarrow> Run_unregister h ch = Done h"
  by (simp add: Run_unregister_def)

lemma Run_unregister_registered:
  assumes "hub_inv h" and "ch \<in> set (clients h)"
  shows "Run_unregister h ch =
           Done (h\<lparr>clients := removeAll ch (clients h),
                   mailboxes := (mailboxes h)[ch := (mailboxes h ! ch)\<lparr>closed := True\<rparr>]\<rparr>)"
  using assms(2) hub_invD(2,3) [OF assms]
  by (simp add: Run_unregister_def close_at_def chan_close_def)

lemma hub_inv_unregistered:
  assumes "hub_inv h"
  shows "hub_inv (h\<lparr>clients := removeAll ch (clients h),
                   mailboxes := (mailboxes h)[ch := (mailboxes h ! ch)\<lparr>closed := True\<rparr>]\<rparr>)"
proof (rule hub_invI)
  show "distinct (clients (h\<lparr>clients := removeAll ch (clients h),
                   mailboxes := (mailboxes h)[ch := (mailboxes h ! ch)\<lparr>closed := True\<rparr>]\<rparr>))"
    using hub_invD(1) [OF assms] by (simp add: distinct_removeAll)
next
  fix c
  assume "c \<in> set (clients (h\<lparr>clients := removeAll ch (clients h),
                   mailboxes := (mailboxes h)[ch := (mailboxes h ! ch)\<lparr>closed := True\<rparr>]\<rparr>))"
  then have "c \<in> set (clients h)" "c \<noteq> ch"
    by simp_all
  with hub_invD(2,3) [OF assms, of c]
  show "c < length (mailboxes (h\<lparr>clients := removeAll ch (clients h),
                   mailboxes := (mailboxes h)[ch := (mailboxes h ! ch)\<lparr>closed := True\<rparr>]\<rparr>))
        \<and> \<not> closed (mailboxes (h\<lparr>clients := removeAll ch (clients h),
                   mailboxes := (mailboxes h)[ch := (mailboxes h ! ch)\<lparr>closed := True\<rparr>]\<rparr>) ! c)"
    by simp
next
  fix i
  assume "i < length (mailboxes (h\<lparr>clients := removeAll ch (clients h),
                   mailboxes := (mailboxes h)[ch := (mailboxes h ! ch)\<lparr>closed := True\<rparr>]\<rparr>))"
  with hub_invD(4) [OF assms, of i]
  show "cap (mailboxes (h\<lparr>clients := removeAll ch (clients h),
                   mailboxes := (mailboxes h)[ch := (mailboxes h ! ch)\<lparr>closed := True\<rparr>]\<rparr>) ! i) = 25"
    by (cases "i = ch") simp_all
next
  show "cap (broadcast (h\<lparr>clients := removeAll ch (clients h),
                   mailboxes := (mailboxes h)[ch := (mailboxes h ! ch)\<lparr>closed := True\<rparr>]\<rparr>)) = 100"
    using hub_invD(5) [OF assms] by simp
next
  show "\<not> closed (broadcast (h\<lparr>clients := removeAll ch (clients h),
                   mailboxes := (mailboxes h)[ch := (mailboxes h ! ch)\<lparr>closed := True\<rparr>]\<rparr>))"
    using hub_invD(6) [OF assms] by simp
qed

lemma hub_inv_mailboxes_update:
  assumes "hub_inv h" and "length ms = length (mailboxes h)"
    and "\<And>i. i < length ms \<Longrightarrow> cap (ms ! i) = cap (mailboxes h ! i)
                                \<and> closed (ms ! i) = closed (mailboxes h ! i)"
    and "cap q = cap (broadcast h)" and "closed q = closed (broadcast h)"
  shows "hub_inv (h\<lparr>broadcast := q, mailboxes := ms\<rparr>)"
proof (rule hub_invI)
  show "distinct (clients (h\<lparr>broadcast := q, mailboxes := ms\<rparr>))"
    using hub_invD(1) [OF assms(1)] by simp
next
  fix ch
  assume "ch \<in> set (clients (h\<lparr>broadcast := q, mailboxes := ms\<rparr>))"
  then have "ch \<in> set (clients h)"
    by simp
  with hub_invD(2,3) [OF assms(1), of ch] assms(2) assms(3) [of ch]
  show "ch < length (mailboxes (h\<lparr>broadcast := q, mailboxes := ms\<rparr>))
        \<and> \<not> closed (mailboxes (h\<lparr>broadcast := q, mailboxes := ms\<rparr>) ! ch)"
    by simp
next
  fix i
  assume "i < length (mailboxes (h\<lparr>broadcast := q, mailboxes := ms\<rparr>))"
  with hub_invD(4) [OF assms(1), of i] assms(2) assms(3) [of i]
  show "cap (mailboxes (h\<lparr>broadcast := q, mailboxes := ms\<rparr>) ! i) = 25"
    by simp
next
  show "cap (broadcast (h\<lparr>broadcast := q, mailboxes := ms\<rparr>)) = 100"
    using hub_invD(5) [OF assms(1)] assms(4) by simp
next
  show "\<not> closed (broadcast (h\<lparr>broadcast := q, mailboxes := ms\<rparr>))"
    using hub_invD(6) [OF assms(1)] assms(5) by simp
qed

lemma cap_deliver: "cap (deliver msg c) = cap c"
  by (simp add: deliver_def)

lemma closed_deliver: "closed (deliver msg c) = closed c"
  by (simp add: deliver_def)

lemma fan_out_clients:
  assumes "hub_inv h"
  shows "\<exists>ms. fan_out msg (clients h) (mailboxes h) = Done ms
           \<and> length ms = length (mailboxes h)
           \<and> (\<forall>i < length (mailboxes h).
                 ms ! i = (if i \<in> set (clients h) then deliver msg (mailboxes h ! i)
                           else mailboxes h ! i))"
  using fan_out_open [of "clients h" "mailboxes h" msg] hub_invD(1,2,3) [OF assms]
  by blast

lemma Broadcast_eq:
  assumes "hub_inv h"
  shows "Broadcast h b =
           (if length (buf (broadcast h)) < 100
            then Done (h\<lparr>broadcast := (broadcast h)
                          \<lparr>buf := buf (broadcast h)
                                  @ [if json_Valid b then b else json_Marshal_raw b]\<rparr>\<rparr>)
            else Blocked)"
  using hub_invD(5,6) [OF assms]
  by (simp add: Broadcast_def chan_send_def Let_def)

lemma hub_inv_broadcast_buf:
  assumes "hub_inv h"
  shows "hub_inv (h\<lparr>broadcast := (broadcast h)\<lparr>buf := q\<rparr>\<rparr>)"
  using hub_inv_mailboxes_update [OF assms, of "mailboxes h" "(broadcast h)\<lparr>buf := q\<rparr>"]
  by simp

lemma Run_broadcast_empty:
  assumes "hub_inv h" and "buf (broadcast h) = []"
  shows "Run_broadcast h = Blocked"
  using assms(2) hub_invD(6) [OF assms(1)]
  by (simp add: Run_broadcast_def chan_recv_def)

lemma Run_broadcast_message:
  assumes "hub_inv h" and "buf (broadcast h) = msg # q"
  shows "\<exists>ms. fan_out msg (clients h) (mailboxes h) = Done ms
           \<and> Run_broadcast h = Done (h\<lparr>broadcast := (broadcast h)\<lparr>buf := q\<rparr>, mailboxes := ms\<rparr>)
           \<and> hub_inv (h\<lparr>broadcast := (broadcast h)\<lparr>buf := q\<rparr>, mailboxes := ms\<rparr>)"
proof -
  from fan_out_clients [OF assms(1), of msg] obtain ms where
    f: "fan_out msg (clients h) (mailboxes h) = Done ms" and l: "length ms = length (mailboxes h)"
    and n: "\<forall>i < length (mailboxes h).
                 ms ! i = (if i \<in> set (clients h) then deliver msg (mailboxes h ! i)
                           else mailboxes h ! i)"
    by blast
  have r: "Run_broadcast h = Done (h\<lparr>broadcast := (broadcast h)\<lparr>buf := q\<rparr>, mailboxes := ms\<rparr>)"
    using assms(2) f by (simp add: Run_broadcast_def chan_recv_def)
  have "hub_inv (h\<lparr>broadcast := (broadcast h)\<lparr>buf := q\<rparr>, mailboxes := ms\<rparr>)"
    using l n by (intro hub_inv_mailboxes_update [OF assms(1)]) (simp_all add: cap_deliver closed_deliver)
  with f r show ?thesis
    by blast
qed

lemma SSE_mailbox_inv:
  assumes "hub_inv h"
  shows "SSE_mailbox h ch w \<noteq> Panic p"
    and "SSE_mailbox h ch w = Done (h', w', continue) \<Longrightarrow>
           hub_inv h' \<and> clients h' = clients h \<and> length (mailboxes h') = length (mailboxes h)"
proof -
  show "SSE_mailbox h ch w \<noteq> Panic p"
    by (simp add: SSE_mailbox_def chan_recv_def split: list.splits)
  assume d: "SSE_mailbox h ch w = Done (h', w', continue)"
  show "hub_inv h' \<and> clients h' = clients h \<and> length (mailboxes h') = length (mailboxes h)"
  proof (cases "ch < length (mailboxes h)")
    case False
    with d show ?thesis by (simp add: SSE_mailbox_def)
  next
    case True
    show ?thesis
    proof (cases "buf (mailboxes h ! ch)")
      case Nil
      with d True assms show ?thesis
        by (simp add: SSE_mailbox_def chan_recv_def split: if_splits)
    next
      case (Cons v rest)
      with d True have h': "h' = h\<lparr>mailboxes := (mailboxes h)[ch := (mailboxes h ! ch)\<lparr>buf := rest\<rparr>]\<rparr>"
        by (simp add: SSE_mailbox_def chan_recv_def)
      have "hub_inv (h\<lparr>broadcast := broadcast h,
                        mailboxes := (mailboxes h)[ch := (mailboxes h ! ch)\<lparr>buf := rest\<rparr>]\<rparr>)"
        using True by (intro hub_inv_mailboxes_update [OF assms]) (auto simp: nth_list_update)
      then show ?thesis
        by (simp add: h')
    qed
  qed
qed

lemma occur_inv:
  assumes "hub_inv h"
  shows "occur h e \<noteq> Panic p"
    and "occur h e = Done h' \<Longrightarrow> hub_inv h'"
proof -
  show "occur h e \<noteq> Panic p"
  proof (cases e)
    case Register
    then show ?thesis by simp
  next
    case (Unregister ch)
    then show ?thesis
      using Run_unregister_registered [OF assms, of ch] Run_unregister_absent [of ch h]
      by (cases "ch \<in> set (clients h)") (simp_all add: SSE_unregister_def)
  next
    case (Publish b)
    then show ?thesis
      by (simp add: Broadcast_eq [OF assms])
  next
    case FanOut
    show ?thesis
    proof (cases "buf (broadcast h)")
      case Nil
      with FanOut Run_broadcast_empty [OF assms] show ?thesis by simp
    next
      case (Cons msg q)
      with FanOut Run_broadcast_message [OF assms Cons] show ?thesis by auto
    qed
  next
    case (Receive ch)
    then show ?thesis
      using SSE_mailbox_inv(1) [OF assms, of ch "[]"]
      by (cases "SSE_mailbox h ch []") auto
  qed
  assume d: "occur h e = Done h'"
  show "hub_inv h'"
  proof (cases e)
    case Register
    with d SSE_register_fresh(3) [OF assms] show ?thesis by auto
  next
    case (Unregister ch)
    show ?thesis
    proof (cases "ch \<in> set (clients h)")
      case True
      with d Unregister Run_unregister_registered [OF assms True] hub_inv_unregistered [OF assms, of ch]
      show ?thesis by (simp add: SSE_unregister_def)
    next
      case False
      with d Unregister assms show ?thesis
        by (simp add: SSE_unregister_def Run_unregister_absent)
    qed
  next
    case (Publish b)
    with d hub_inv_broadcast_buf [OF assms] show ?thesis
      by (auto simp: Broadcast_eq [OF assms] split: if_splits)
  next
    case FanOut
    show ?thesis
    proof (cases "buf (broadcast h)")
      case Nil
      with d FanOut Run_broadcast_empty [OF assms] show ?thesis by simp
    next
      case (Cons msg q)
      with d FanOut Run_broadcast_message [OF assms Cons] show ?thesis by auto
    qed
  next
    case (Receive ch)
    with d obtain w c where "SSE_mailbox h ch [] = Done (h', w, c)"
      by (auto split: outcome.splits)
    with SSE_mailbox_inv(2) [OF assms] show ?thesis
      by blast
  qed
qed

lemma after_inv: "hub_inv h \<Longrightarrow> hub_inv (after h e)"
  using occur_inv(2) [of h e] by (cases "occur h e") simp_all

lemma run_Done:
  assumes "hub_inv h"
  shows "run h es = Done (foldl after h es) \<and> hub_inv (foldl after h es)"
  using assms
proof (induction es arbitrary: h)
  case Nil
  then show ?case by simp
next
  case (Cons e es)
  from Cons.IH [OF after_inv [OF Cons.prems, of e]] occur_inv(1) [OF Cons.prems, of e]
  show ?case
    by (cases "occur h e") auto
qed

text \<open>The effect of one event on the registry and on the number of channels.\<close>

lemma clients_after:
  assumes "hub_inv h"
  shows "clients (after h e) =
           (case e of
              Register \<Rightarrow> length (mailboxes h) # clients h
            | Unregister ch \<Rightarrow> removeAll ch (clients h)
            | _ \<Rightarrow> clients h)"
proof (cases e)
  case Register
  with SSE_register_fresh(2) [OF assms] show ?thesis
    by (simp add: SSE_register_eq)
next
  case (Unregister ch)
  then show ?thesis
    using Run_unregister_registered [OF assms, of ch] Run_unregister_absent [of ch h]
    by (cases "ch \<in> set (clients h)") (simp_all add: SSE_unregister_def)
next
  case (Publish b)
  then show ?thesis
    by (simp add: Broadcast_eq [OF assms])
next
  case FanOut
  show ?thesis
  proof (cases "buf (broadcast h)")
    case Nil
    with FanOut Run_broadcast_empty [OF assms] show ?thesis by simp
  next
    case (Cons msg q)
    with FanOut Run_broadcast_message [OF assms Cons] show ?thesis by auto
  qed
next
  case (Receive ch)
  show ?thesis
  proof (cases "SSE_mailbox h ch []")
    case (Done r)
    obtain h' w c where "r = (h', w, c)"
      by (cases r)
    with Done Receive SSE_mailbox_inv(2) [OF assms, of ch "[]" h' w c] show ?thesis
      by simp
  next
    case Blocked
    with Receive show ?thesis by simp
  next
    case (Panic p)
    with Receive show ?thesis by simp
  qed
qed

lemma length_mailboxes_after:
  assumes "hub_inv h"
  shows "length (mailboxes (after h e)) =
           (if e = Register then Suc (length (mailboxes h)) else length (mailboxes h))"
proof (cases e)
  case Register
  then show ?thesis
    by (simp add: SSE_register_eq)
next
  case (Unregister ch)
  then show ?thesis
    using Run_unregister_registered [OF assms, of ch] Run_unregister_absent [of ch h]
    by (cases "ch \<in> set (clients h)") (simp_all add: SSE_unregister_def)
next
  case (Publish b)
  then show ?thesis
    by (simp add: Broadcast_eq [OF assms])
next
  case FanOut
  show ?thesis
  proof (cases "buf (broadcast h)")
    case Nil
    with FanOut Run_broadcast_empty [OF assms] show ?thesis by simp
  next
    case (Cons msg q)
    from fan_out_clients [OF assms, of msg] obtain ms where
      "fan_out msg (clients h) (mailboxes h) = Done ms" "length ms = length (mailboxes h)"
      by blast
    with FanOut Cons show ?thesis
      by (simp add: Run_broadcast_def chan_recv_def)
  qed
next
  case (Receive ch)
  show ?thesis
  proof (cases "SSE_mailbox h ch []")
    case (Done r)
    obtain h' w c where "r = (h', w, c)"
      by (cases r)
    with Done Receive SSE_mailbox_inv(2) [OF assms, of ch "[]" h' w c] show ?thesis
      by simp
  next
    case Blocked
    with Receive show ?thesis by simp
  next
    case (Panic p)
    with Receive show ?thesis by simp
  qed
qed

lemma handles_fresh:
  assumes "hub_inv h"
  shows "sorted_wrt (<) (handles h es) \<and> (\<forall>x \<in> set (handles h es). length (mailboxes h) \<le> x)
         \<and> length (handles h es) = registrations es"
  using assms
proof (induction es arbitrary: h)
  case Nil
  show ?case by simp
next
  case (Cons e es)
  note IH = Cons.IH [OF after_inv [OF Cons.prems, of e]]
  note len = length_mailboxes_after [OF Cons.prems, of e]
  show ?case
  proof (cases "e = Register")
    case True
    with IH len show ?thesis
      by (auto simp: SSE_register_eq simp del: after.simps)
  next
    case False
    then have "handles h (e # es) = handles (after h e) es"
      "registrations (e # es) = registrations es"
      by (cases e; simp)+
    with IH len False show ?thesis
      by (auto simp del: after.simps)
  qed
qed

lemma length_removeAll_distinct:
  "distinct xs \<Longrightarrow> length (removeAll x xs) + (if x \<in> set xs then 1 else 0) = length xs"
  by (induction xs) auto

lemma live_count:
  assumes "hub_inv h"
  shows "int (length (clients (foldl after h es)))
           = int (length (clients h)) + int (registrations es)
             - int (effective_unregistrations h es)"
  using assms
proof (induction es arbitrary: h)
  case Nil
  show ?case by simp
next
  case (Cons e es)
  note IH = Cons.IH [OF after_inv [OF Cons.prems, of e]]
  note cl = clients_after [OF Cons.prems, of e]
  have d: "distinct (clients h)"
    by (rule hub_invD(1) [OF Cons.prems])
  show ?case
  proof (cases e)
    case Register
    with IH cl show ?thesis
      by (simp del: after.simps)
  next
    case (Unregister ch)
    have "length (removeAll ch (clients h)) + (if ch \<in> set (clients h) then 1 else 0)
            = length (clients h)"
      using d by (rule length_removeAll_distinct)
    with Unregister IH cl show ?thesis
      by (simp del: after.simps)
  next
    case (Publish b)
    with IH cl show ?thesis
      by (simp del: after.simps)
  next
    case FanOut
    with IH cl show ?thesis
      by (simp del: after.simps)
  next
    case (Receive ch)
    with IH cl show ?thesis
      by (simp del: after.simps)
  qed
qed

text \<open>
  Claim C1. When one message is fanned out over the registered clients, in whatever order
  the runtime enumerates them, the fan-out completes (it is never blocked, and on a
  reachable hub it does not panic); every registered client has a mailbox of capacity
  25; a registered client with fewer than 25 pending messages gets the message appended
  to its mailbox, a registered client with a full mailbox keeps its mailbox unchanged,
  and no other channel is touched. So a full mailbox costs only its own client the
  message. This is what the broadcast case of \<^verbatim>\<open>Run\<close> does with the message at the
  head of the queue.
\<close>

theorem fan_out_delivers_unless_mailbox_full:
  assumes "hub_inv h" and "distinct order" and "set order = set (clients h)"
  shows "\<exists>ms. fan_out msg order (mailboxes h) = Done ms
           \<and> length ms = length (mailboxes h)
           \<and> (\<forall>ch \<in> set (clients h).
                 cap (mailboxes h ! ch) = 25
                 \<and> (length (buf (mailboxes h ! ch)) < 25 \<longrightarrow>
                      ms ! ch = (mailboxes h ! ch)\<lparr>buf := buf (mailboxes h ! ch) @ [msg]\<rparr>)
                 \<and> (\<not> length (buf (mailboxes h ! ch)) < 25 \<longrightarrow> ms ! ch = mailboxes h ! ch))
           \<and> (\<forall>i < length (mailboxes h). i \<notin> set (clients h) \<longrightarrow> ms ! i = mailboxes h ! i)
           \<and> (\<forall>q. buf (broadcast h) = msg # q \<longrightarrow>
                 Run_broadcast h = Done (h\<lparr>broadcast := (broadcast h)\<lparr>buf := q\<rparr>, mailboxes := ms\<rparr>))
           \<and> (\<forall>cs bs. fan_out msg cs bs \<noteq> Blocked)"
proof -
  have ok: "ch < length (mailboxes h) \<and> \<not> closed (mailboxes h ! ch)" if "ch \<in> set order" for ch
    using that assms(3) hub_invD(2,3) [OF assms(1), of ch] by simp
  from fan_out_open [OF assms(2) ok, of msg] obtain ms where
    f: "fan_out msg order (mailboxes h) = Done ms" and l: "length ms = length (mailboxes h)"
    and n: "\<forall>i < length (mailboxes h).
              ms ! i = (if i \<in> set order then deliver msg (mailboxes h ! i) else mailboxes h ! i)"
    by blast
  have same: "fan_out msg (clients h) (mailboxes h) = Done ms"
    using fan_out_order_irrelevant [OF assms(2) hub_invD(1) [OF assms(1)] assms(3) ok, of msg] f
    by simp
  have reg: "cap (mailboxes h ! ch) = 25
             \<and> (length (buf (mailboxes h ! ch)) < 25 \<longrightarrow>
                  ms ! ch = (mailboxes h ! ch)\<lparr>buf := buf (mailboxes h ! ch) @ [msg]\<rparr>)
             \<and> (\<not> length (buf (mailboxes h ! ch)) < 25 \<longrightarrow> ms ! ch = mailboxes h ! ch)"
    if "ch \<in> set (clients h)" for ch
  proof -
    from that have lt: "ch < length (mailboxes h)"
      by (rule hub_invD(2) [OF assms(1)])
    then have c: "cap (mailboxes h ! ch) = 25"
      by (rule hub_invD(4) [OF assms(1)])
    from n lt that assms(3) have "ms ! ch = deliver msg (mailboxes h ! ch)"
      by simp
    with c show ?thesis
      by (simp add: deliver_def)
  qed
  have other: "\<forall>i < length (mailboxes h). i \<notin> set (clients h) \<longrightarrow> ms ! i = mailboxes h ! i"
    using n assms(3) by simp
  have runs: "\<forall>q. buf (broadcast h) = msg # q \<longrightarrow>
                 Run_broadcast h = Done (h\<lparr>broadcast := (broadcast h)\<lparr>buf := q\<rparr>, mailboxes := ms\<rparr>)"
    using same by (simp add: Run_broadcast_def chan_recv_def)
  have never: "\<forall>cs bs. fan_out msg cs bs \<noteq> Blocked"
    by (simp add: fan_out_not_Blocked)
  from reg have reg': "\<forall>ch \<in> set (clients h).
                 cap (mailboxes h ! ch) = 25
                 \<and> (length (buf (mailboxes h ! ch)) < 25 \<longrightarrow>
                      ms ! ch = (mailboxes h ! ch)\<lparr>buf := buf (mailboxes h ! ch) @ [msg]\<rparr>)
                 \<and> (\<not> length (buf (mailboxes h ! ch)) < 25 \<longrightarrow> ms ! ch = mailboxes h ! ch)"
    by blast
  have all: "fan_out msg order (mailboxes h) = Done ms
           \<and> length ms = length (mailboxes h)
           \<and> (\<forall>ch \<in> set (clients h).
                 cap (mailboxes h ! ch) = 25
                 \<and> (length (buf (mailboxes h ! ch)) < 25 \<longrightarrow>
                      ms ! ch = (mailboxes h ! ch)\<lparr>buf := buf (mailboxes h ! ch) @ [msg]\<rparr>)
                 \<and> (\<not> length (buf (mailboxes h ! ch)) < 25 \<longrightarrow> ms ! ch = mailboxes h ! ch))
           \<and> (\<forall>i < length (mailboxes h). i \<notin> set (clients h) \<longrightarrow> ms ! i = mailboxes h ! i)
           \<and> (\<forall>q. buf (broadcast h) = msg # q \<longrightarrow>
                 Run_broadcast h = Done (h\<lparr>broadcast := (broadcast h)\<lparr>buf := q\<rparr>, mailboxes := ms\<rparr>))
           \<and> (\<forall>cs bs. fan_out msg cs bs \<noteq> Blocked)"
    using f l reg' other runs never by (intro conjI)
  show ?thesis
    by (rule exI) (rule all)
qed

lemma hub_inv_busy_hub: "hub_inv busy_hub"
  by (simp add: hub_inv_def busy_hub_def full_box_def empty_box_def)

theorem fan_out_delivers_unless_mailbox_full_witness:
  "hub_inv busy_hub
   \<and> set [0, 1] = set (clients busy_hub)
   \<and> length (buf (mailboxes busy_hub ! 0)) = 25
   \<and> length (buf (mailboxes busy_hub ! 1)) = 0
   \<and> (\<exists>ms. fan_out k1 [0, 1] (mailboxes busy_hub) = Done ms
          \<and> ms ! 0 = full_box
          \<and> ms ! 1 = empty_box\<lparr>buf := [k1]\<rparr>
          \<and> Run_broadcast busy_hub
              = Done (busy_hub\<lparr>broadcast := (broadcast busy_hub)\<lparr>buf := []\<rparr>, mailboxes := ms\<rparr>))"
proof -
  have s: "set [0, 1] = set (clients busy_hub)"
    by (auto simp: busy_hub_def)
  have d: "distinct [0 :: nat, 1]"
    by simp
  have facts: "length (buf (mailboxes busy_hub ! 0)) = 25" "length (buf (mailboxes busy_hub ! 1)) = 0"
    "mailboxes busy_hub ! 0 = full_box" "mailboxes busy_hub ! 1 = empty_box"
    "buf (broadcast busy_hub) = k1 # []" "(0 :: nat) \<in> set (clients busy_hub)"
    "(1 :: nat) \<in> set (clients busy_hub)" "buf empty_box = []"
    by (simp_all add: busy_hub_def full_box_def empty_box_def)
  from fan_out_delivers_unless_mailbox_full [OF hub_inv_busy_hub d s, of k1]
  obtain ms where f: "fan_out k1 [0, 1] (mailboxes busy_hub) = Done ms"
    and r: "\<forall>ch \<in> set (clients busy_hub).
                 cap (mailboxes busy_hub ! ch) = 25
                 \<and> (length (buf (mailboxes busy_hub ! ch)) < 25 \<longrightarrow>
                      ms ! ch = (mailboxes busy_hub ! ch)\<lparr>buf := buf (mailboxes busy_hub ! ch) @ [k1]\<rparr>)
                 \<and> (\<not> length (buf (mailboxes busy_hub ! ch)) < 25 \<longrightarrow> ms ! ch = mailboxes busy_hub ! ch)"
    and b: "\<forall>q. buf (broadcast busy_hub) = k1 # q \<longrightarrow>
                 Run_broadcast busy_hub
                   = Done (busy_hub\<lparr>broadcast := (broadcast busy_hub)\<lparr>buf := q\<rparr>, mailboxes := ms\<rparr>)"
    by blast
  from r facts have m0: "ms ! 0 = full_box"
    by auto
  from r facts have m1: "ms ! 1 = empty_box\<lparr>buf := [k1]\<rparr>"
    by auto
  from b facts have rb: "Run_broadcast busy_hub
              = Done (busy_hub\<lparr>broadcast := (broadcast busy_hub)\<lparr>buf := []\<rparr>, mailboxes := ms\<rparr>)"
    by blast
  from f m0 m1 rb have "\<exists>ms. fan_out k1 [0, 1] (mailboxes busy_hub) = Done ms
          \<and> ms ! 0 = full_box
          \<and> ms ! 1 = empty_box\<lparr>buf := [k1]\<rparr>
          \<and> Run_broadcast busy_hub
              = Done (busy_hub\<lparr>broadcast := (broadcast busy_hub)\<lparr>buf := []\<rparr>, mailboxes := ms\<rparr>)"
    by blast
  with hub_inv_busy_hub s facts(1,2) show ?thesis
    by (intro conjI)
qed

text \<open>
  Claim C7. Processing \<^verbatim>\<open>Unregister\<close> for a registered handle removes exactly that handle
  from the registry and closes its mailbox, keeping the messages still pending in it and
  touching no other channel; the stream loop that owns the mailbox then finds it closed
  and returns once the mailbox is empty. Processing \<^verbatim>\<open>Unregister\<close> for the same handle a
  second time changes nothing and does not close the mailbox again (which would panic).
\<close>

theorem Unregister_removes_and_closes_once:
  assumes "hub_inv h" and "ch \<in> set (clients h)"
  shows "\<exists>h'. Run_unregister h ch = Done h'
           \<and> set (clients h') = set (clients h) - {ch}
           \<and> \<not> closed (mailboxes h ! ch)
           \<and> closed (mailboxes h' ! ch)
           \<and> buf (mailboxes h' ! ch) = buf (mailboxes h ! ch)
           \<and> length (mailboxes h') = length (mailboxes h)
           \<and> (\<forall>i. i \<noteq> ch \<longrightarrow> mailboxes h' ! i = mailboxes h ! i)
           \<and> broadcast h' = broadcast h
           \<and> hub_inv h'
           \<and> Run_unregister h' ch = Done h'
           \<and> (\<forall>w. buf (mailboxes h ! ch) = [] \<longrightarrow> SSE_mailbox h' ch w = Done (h', w, False))"
proof -
  let ?h' = "h\<lparr>clients := removeAll ch (clients h),
               mailboxes := (mailboxes h)[ch := (mailboxes h ! ch)\<lparr>closed := True\<rparr>]\<rparr>"
  have lt: "ch < length (mailboxes h)" and op: "\<not> closed (mailboxes h ! ch)"
    using hub_invD(2,3) [OF assms] by simp_all
  have u: "Run_unregister h ch = Done ?h'"
    by (rule Run_unregister_registered [OF assms])
  have inv: "hub_inv ?h'"
    by (rule hub_inv_unregistered [OF assms(1)])
  have again: "Run_unregister ?h' ch = Done ?h'"
    by (rule Run_unregister_absent) simp
  have stop: "\<forall>w. buf (mailboxes h ! ch) = [] \<longrightarrow> SSE_mailbox ?h' ch w = Done (?h', w, False)"
    using lt by (simp add: SSE_mailbox_def chan_recv_def)
  have all: "Run_unregister h ch = Done ?h'
           \<and> set (clients ?h') = set (clients h) - {ch}
           \<and> \<not> closed (mailboxes h ! ch)
           \<and> closed (mailboxes ?h' ! ch)
           \<and> buf (mailboxes ?h' ! ch) = buf (mailboxes h ! ch)
           \<and> length (mailboxes ?h') = length (mailboxes h)
           \<and> (\<forall>i. i \<noteq> ch \<longrightarrow> mailboxes ?h' ! i = mailboxes h ! i)
           \<and> broadcast ?h' = broadcast h
           \<and> hub_inv ?h'
           \<and> Run_unregister ?h' ch = Done ?h'
           \<and> (\<forall>w. buf (mailboxes h ! ch) = [] \<longrightarrow> SSE_mailbox ?h' ch w = Done (?h', w, False))"
    using u op inv again stop lt by (intro conjI) simp_all
  show ?thesis
    by (rule exI) (rule all)
qed

theorem Unregister_removes_and_closes_once_witness:
  "hub_inv busy_hub \<and> 1 \<in> set (clients busy_hub)
   \<and> buf (mailboxes busy_hub ! 1) = []
   \<and> (\<exists>h'. Run_unregister busy_hub 1 = Done h'
          \<and> set (clients h') = {0}
          \<and> closed (mailboxes h' ! 1)
          \<and> Run_unregister h' 1 = Done h'
          \<and> SSE_mailbox h' 1 [] = Done (h', [], False))"
proof -
  have reg: "1 \<in> set (clients busy_hub)"
    by (simp add: busy_hub_def)
  have e: "buf (mailboxes busy_hub ! 1) = []"
    by (simp add: busy_hub_def empty_box_def)
  have c: "set (clients busy_hub) - {1} = {0}"
    by (auto simp: busy_hub_def)
  from Unregister_removes_and_closes_once [OF hub_inv_busy_hub reg] e c
  have "\<exists>h'. Run_unregister busy_hub 1 = Done h'
          \<and> set (clients h') = {0}
          \<and> closed (mailboxes h' ! 1)
          \<and> Run_unregister h' 1 = Done h'
          \<and> SSE_mailbox h' 1 [] = Done (h', [], False)"
    by auto
  with hub_inv_busy_hub reg e show ?thesis
    by (intro conjI)
qed

text \<open>
  Claim C8. From any reachable hub, every sequence of events (registrations and
  unregistrations in any interleaving, with broadcasts, fan-outs and receptions among
  them) runs to the end without a panic, and afterwards the number of clients in the
  registry is the number before, plus the registrations processed, minus the
  unregistrations that found their handle registered; from \<^verbatim>\<open>NewHub\<close> it is the
  registrations minus the effective unregistrations. Each registration returns a handle
  that is not registered at that moment, that no earlier \<^verbatim>\<open>make\<close> has returned, and that
  differs from the handle of every other registration; the registry never lists a
  handle twice.
\<close>

theorem live_clients_are_registrations_minus_unregistrations:
  assumes "hub_inv h"
  shows "\<exists>h'. run h es = Done h'
           \<and> hub_inv h'
           \<and> int (length (clients h'))
               = int (length (clients h)) + int (registrations es)
                 - int (effective_unregistrations h es)
           \<and> distinct (clients h')
           \<and> length (handles h es) = registrations es
           \<and> distinct (handles h es)
           \<and> (\<forall>x \<in> set (handles h es). x \<notin> set (clients h) \<and> length (mailboxes h) \<le> x)
           \<and> snd (SSE_register h) \<notin> set (clients h)
           \<and> clients (fst (SSE_register h)) = snd (SSE_register h) # clients h"
proof -
  let ?h' = "foldl after h es"
  from run_Done [OF assms, of es] have r: "run h es = Done ?h'" and inv: "hub_inv ?h'"
    by simp_all
  from handles_fresh [OF assms, of es] have s: "sorted_wrt (<) (handles h es)"
    and f: "\<forall>x \<in> set (handles h es). length (mailboxes h) \<le> x"
    and l: "length (handles h es) = registrations es"
    by simp_all
  from s have d: "distinct (handles h es)"
    by (simp add: strict_sorted_iff)
  have fresh: "\<forall>x \<in> set (handles h es). x \<notin> set (clients h) \<and> length (mailboxes h) \<le> x"
  proof
    fix x
    assume "x \<in> set (handles h es)"
    with f have ge: "length (mailboxes h) \<le> x"
      by simp
    then have "x \<notin> set (clients h)"
      using hub_invD(2) [OF assms, of x] by auto
    with ge show "x \<notin> set (clients h) \<and> length (mailboxes h) \<le> x"
      by simp
  qed
  have all: "run h es = Done ?h'
           \<and> hub_inv ?h'
           \<and> int (length (clients ?h'))
               = int (length (clients h)) + int (registrations es)
                 - int (effective_unregistrations h es)
           \<and> distinct (clients ?h')
           \<and> length (handles h es) = registrations es
           \<and> distinct (handles h es)
           \<and> (\<forall>x \<in> set (handles h es). x \<notin> set (clients h) \<and> length (mailboxes h) \<le> x)
           \<and> snd (SSE_register h) \<notin> set (clients h)
           \<and> clients (fst (SSE_register h)) = snd (SSE_register h) # clients h"
    using r inv live_count [OF assms, of es] hub_invD(1) [OF inv] l d fresh
      SSE_register_fresh(1,2) [OF assms]
    by (intro conjI)
  show ?thesis
    by (rule exI) (rule all)
qed

theorem live_clients_are_registrations_minus_unregistrations_witness:
  "hub_inv NewHub
   \<and> registrations [Register, Register, Unregister 0, Unregister 0, Unregister 7, Register] = 3
   \<and> effective_unregistrations NewHub
        [Register, Register, Unregister 0, Unregister 0, Unregister 7, Register] = 1
   \<and> handles NewHub [Register, Register, Unregister 0, Unregister 0, Unregister 7, Register]
        = [0, 1, 2]
   \<and> (\<exists>h'. run NewHub [Register, Register, Unregister 0, Unregister 0, Unregister 7, Register]
              = Done h'
          \<and> int (length (clients h')) = 2)"
proof -
  let ?es = "[Register, Register, Unregister 0, Unregister 0, Unregister 7, Register]"
  have r: "registrations ?es = 3"
    by simp
  have e: "effective_unregistrations NewHub ?es = 1"
    by (simp add: NewHub_def SSE_register_eq SSE_unregister_def Run_unregister_def close_at_def
        chan_close_def make_chan_def)
  have hs: "handles NewHub ?es = [0, 1, 2]"
    by (simp add: NewHub_def SSE_register_eq SSE_unregister_def Run_unregister_def close_at_def
        chan_close_def make_chan_def)
  from live_clients_are_registrations_minus_unregistrations [OF hub_inv_NewHub, of ?es] r e
  have "\<exists>h'. run NewHub ?es = Done h' \<and> int (length (clients h')) = 2"
    by (auto simp: NewHub_def)
  with hub_inv_NewHub r e hs show ?thesis
    by (intro conjI)
qed

lemma Publish_fills_queue:
  assumes "length q + n \<le> 100"
  shows "run (NewHub\<lparr>broadcast := \<lparr>buf = q, cap = 100, closed = False\<rparr>\<rparr>)
             (replicate n (Publish ''{}''))
           = Done (NewHub\<lparr>broadcast := \<lparr>buf = q @ replicate n ''{}'', cap = 100, closed = False\<rparr>\<rparr>)"
  using assms
proof (induction n arbitrary: q)
  case 0
  show ?case by simp
next
  case (Suc n)
  from Suc.prems have room: "length q < 100" and rest: "length (q @ [''{}'']) + n \<le> 100"
    by simp_all
  have one: "Broadcast (NewHub\<lparr>broadcast := \<lparr>buf = q, cap = 100, closed = False\<rparr>\<rparr>) ''{}''
               = Done (NewHub\<lparr>broadcast := \<lparr>buf = q @ [''{}''], cap = 100, closed = False\<rparr>\<rparr>)"
    using room by (simp add: Broadcast_def chan_send_def json_Valid_empty_object)
  from Suc.IH [OF rest] one show ?case
    by (simp add: replicate_app_Cons_same)
qed

text \<open>
  Claim C3, as stated, fails on the code: \<^verbatim>\<open>Broadcast\<close> ends with the plain send
  \<^verbatim>\<open>h.broadcast <- ...\<close> on a channel of capacity 100, and a plain send waits while the
  channel is full. A hundred calls made before \<^verbatim>\<open>Run\<close> takes a message fill the queue
  (none of them is blocked), and the next call is blocked, with no client registered.
\<close>

theorem Broadcast_blocks_when_queue_full:
  "run NewHub (replicate 100 (Publish ''{}'')) = Done jammed_hub
   \<and> clients jammed_hub = []
   \<and> Broadcast jammed_hub ''{}'' = Blocked"
proof -
  have "NewHub\<lparr>broadcast := \<lparr>buf = [], cap = 100, closed = False\<rparr>\<rparr> = NewHub"
    by (simp add: NewHub_def make_chan_def)
  with Publish_fills_queue [of "[]" 100]
  have "run NewHub (replicate 100 (Publish ''{}'')) = Done jammed_hub"
    by (simp add: jammed_hub_def NewHub_def)
  moreover have "Broadcast jammed_hub ''{}'' = Blocked"
    by (simp add: Broadcast_def chan_send_def jammed_hub_def Let_def)
  moreover have "clients jammed_hub = []"
    by (simp add: jammed_hub_def)
  ultimately show ?thesis
    by simp
qed

text \<open>
  Claim C3, amended. On a reachable hub a call of \<^verbatim>\<open>Broadcast\<close> never panics, and it is
  blocked exactly when the hub's broadcast queue already holds 100 messages; with fewer,
  it completes at once, adds the normalised payload at the end of the queue, and changes
  neither the registry nor any mailbox. Whether it is blocked is the same for every
  registry and every state of the mailboxes: it depends on the queue alone. The fan-out
  that \<^verbatim>\<open>Run\<close> then performs for a queued message always completes, and with no client
  registered it only removes the message from the queue.
\<close>

theorem Broadcast_blocks_only_on_full_queue:
  assumes "hub_inv h"
  shows "(Broadcast h b = Blocked \<longleftrightarrow> 100 \<le> length (buf (broadcast h)))
         \<and> (\<forall>p. Broadcast h b \<noteq> Panic p)
         \<and> (length (buf (broadcast h)) < 100 \<longrightarrow>
              (\<exists>h'. Broadcast h b = Done h'
                 \<and> clients h' = clients h
                 \<and> mailboxes h' = mailboxes h
                 \<and> buf (broadcast h')
                     = buf (broadcast h) @ [if json_Valid b then b else json_Marshal_raw b]))
         \<and> (\<forall>cs ms. hub_inv (h\<lparr>clients := cs, mailboxes := ms\<rparr>) \<longrightarrow>
                (Broadcast (h\<lparr>clients := cs, mailboxes := ms\<rparr>) b = Blocked
                   \<longleftrightarrow> Broadcast h b = Blocked))
         \<and> (\<forall>msg q. buf (broadcast h) = msg # q \<longrightarrow> (\<exists>h'. Run_broadcast h = Done h'))
         \<and> (\<forall>msg q. clients h = [] \<and> buf (broadcast h) = msg # q \<longrightarrow>
                Run_broadcast h = Done (h\<lparr>broadcast := (broadcast h)\<lparr>buf := q\<rparr>\<rparr>))"
proof (intro conjI allI impI)
  show "Broadcast h b = Blocked \<longleftrightarrow> 100 \<le> length (buf (broadcast h))"
    by (auto simp: Broadcast_eq [OF assms])
next
  fix p
  show "Broadcast h b \<noteq> Panic p"
    by (simp add: Broadcast_eq [OF assms])
next
  assume "length (buf (broadcast h)) < 100"
  then show "\<exists>h'. Broadcast h b = Done h'
                 \<and> clients h' = clients h
                 \<and> mailboxes h' = mailboxes h
                 \<and> buf (broadcast h')
                     = buf (broadcast h) @ [if json_Valid b then b else json_Marshal_raw b]"
    by (simp add: Broadcast_eq [OF assms])
next
  fix cs ms
  assume inv': "hub_inv (h\<lparr>clients := cs, mailboxes := ms\<rparr>)"
  show "Broadcast (h\<lparr>clients := cs, mailboxes := ms\<rparr>) b = Blocked \<longleftrightarrow> Broadcast h b = Blocked"
    by (auto simp: Broadcast_eq [OF assms] Broadcast_eq [OF inv'])
next
  fix msg q
  assume "buf (broadcast h) = msg # q"
  from Run_broadcast_message [OF assms this] show "\<exists>h'. Run_broadcast h = Done h'"
    by blast
next
  fix msg q
  assume "clients h = [] \<and> buf (broadcast h) = msg # q"
  then show "Run_broadcast h = Done (h\<lparr>broadcast := (broadcast h)\<lparr>buf := q\<rparr>\<rparr>)"
    by (simp add: Run_broadcast_def chan_recv_def)
qed

theorem Broadcast_blocks_only_on_full_queue_witness:
  "hub_inv NewHub
   \<and> length (buf (broadcast NewHub)) < 100
   \<and> (\<exists>h'. Broadcast NewHub k1 = Done h'
          \<and> buf (broadcast h') = [k1]
          \<and> mailboxes h' = []
          \<and> clients h' = []
          \<and> hub_inv h'
          \<and> Run_broadcast h' = Done NewHub)"
proof -
  have room: "length (buf (broadcast NewHub)) < 100"
    by (simp add: NewHub_def make_chan_def)
  have v: "json_Valid k1"
    by (simp add: k1_def scanner_defs)
  from Broadcast_blocks_only_on_full_queue [OF hub_inv_NewHub, of k1] room v
  obtain h' where b: "Broadcast NewHub k1 = Done h'" and c: "clients h' = clients NewHub"
    and m: "mailboxes h' = mailboxes NewHub" and q: "buf (broadcast h') = buf (broadcast NewHub) @ [k1]"
    by auto
  from occur_inv(2) [OF hub_inv_NewHub, of "Publish k1" h'] b have inv: "hub_inv h'"
    by simp
  from c m q have c': "clients h' = []" and m': "mailboxes h' = []" and q': "buf (broadcast h') = k1 # []"
    by (simp_all add: NewHub_def make_chan_def)
  from Broadcast_blocks_only_on_full_queue [OF inv, of k1] c' q'
  have "Run_broadcast h' = Done (h'\<lparr>broadcast := (broadcast h')\<lparr>buf := []\<rparr>\<rparr>)"
    by blast
  moreover have "h'\<lparr>broadcast := (broadcast h')\<lparr>buf := []\<rparr>\<rparr> = NewHub"
    using b by (auto simp: Broadcast_def chan_send_def NewHub_def make_chan_def Let_def split: if_splits)
  ultimately have r: "Run_broadcast h' = Done NewHub"
    by simp
  from b q' m' c' inv r have "\<exists>h'. Broadcast NewHub k1 = Done h'
          \<and> buf (broadcast h') = [k1]
          \<and> mailboxes h' = []
          \<and> clients h' = []
          \<and> hub_inv h'
          \<and> Run_broadcast h' = Done NewHub"
    by blast
  with hub_inv_NewHub room show ?thesis
    by (intro conjI)
qed











end
